theory Spec2Isabelle
  imports Main "HOL-Library.Multiset" "HOL-Library.Product_Lexorder"
begin

section \<open>Layer hierarchy trees\<close>

text \<open>
  The nodes of a layer hierarchy tree are heap objects that refer to each other by
  pointer (\<open>LHTreeNode*\<close>): a compound node holds the array \<open>m_child\<close> of its
  children and the array \<open>m_storedChild\<close> saved by \<open>store()\<close>. They are modelled
  as records in a store from addresses to records; an address outside the domain of
  the store is a freed or null pointer, and dereferencing it is the error \<open>None\<close>.
\<close>

type_synonym node = nat
type_synonym cluster = nat
type_synonym addr = nat

datatype Type = Compound | Node | AuxNode

record Adjacency =
  m_u :: node
  m_v :: addr
  m_weight :: int

record LHTreeNode =
  m_type :: Type
  m_origCluster :: cluster
  m_node :: node
  m_child :: "addr list"
  m_storedChild :: "addr list"
  m_upperAdj :: "Adjacency list"
  m_lowerAdj :: "Adjacency list"

type_synonym heap = "addr \<rightharpoonup> LHTreeNode"

text \<open>\<open>m_child[i]->m_type == AuxNode\<close>, read in the store.\<close>

definition isAux :: "heap \<Rightarrow> addr \<Rightarrow> bool" where
  "isAux h a = (case h a of None \<Rightarrow> False | Some c \<Rightarrow> m_type c = AuxNode)"

text \<open>
  \<open>LHTreeNode::removeAuxChildren\<close>: the loop \<open>for(i = 0; i <= m_child.high(); ++i)\<close>
  compacts the array in place (\<open>m_child[j++] = m_child[i]\<close>) and deletes the
  auxiliary children; afterwards \<open>m_child.grow(j - i, nullptr)\<close> cuts the array down
  to its first \<open>j\<close> entries. The assertion \<open>isCompound()\<close> is a branch of the model.
\<close>

function removeAux_loop ::
  "heap \<Rightarrow> addr list \<Rightarrow> nat \<Rightarrow> nat \<Rightarrow> (heap \<times> addr list \<times> nat) option" where
  "removeAux_loop h child i j =
     (if i < length child then
        (case h (child ! i) of
           None \<Rightarrow> None
         | Some c \<Rightarrow>
             if m_type c \<noteq> AuxNode
             then removeAux_loop h (child[j := child ! i]) (i + 1) (j + 1)
             else removeAux_loop (h(child ! i := None)) child (i + 1) j)
      else Some (h, child, j))"
  by pat_completeness auto
termination
  by (relation "measure (\<lambda>(h, child, i, j). length child - i)") auto

declare removeAux_loop.simps [simp del]

definition removeAuxChildren :: "addr \<Rightarrow> heap \<Rightarrow> heap option" where
  "removeAuxChildren p h =
     (case h p of
        None \<Rightarrow> None
      | Some nd \<Rightarrow>
          if m_type nd \<noteq> Compound then None
          else (case removeAux_loop h (m_child nd) 0 0 of
                  None \<Rightarrow> None
                | Some (h', child, j) \<Rightarrow>
                    Some (h'(p \<mapsto> nd\<lparr>m_child := take j child\<rparr>))))"

text \<open>A small tree: a compound node at address 0 over a vertex leaf, an auxiliary leaf
  and a second vertex leaf.\<close>

definition ex_leaf :: "Type \<Rightarrow> node \<Rightarrow> LHTreeNode" where
  "ex_leaf t v = \<lparr>m_type = t, m_origCluster = 0, m_node = v, m_child = [],
     m_storedChild = [], m_upperAdj = [], m_lowerAdj = []\<rparr>"

definition ex_compound :: "cluster \<Rightarrow> addr list \<Rightarrow> LHTreeNode" where
  "ex_compound c ch = \<lparr>m_type = Compound, m_origCluster = c, m_node = 0, m_child = ch,
     m_storedChild = [], m_upperAdj = [], m_lowerAdj = []\<rparr>"

definition ex_heap :: heap where
  "ex_heap = [0 \<mapsto> ex_compound 0 [1, 2, 3], 1 \<mapsto> ex_leaf Node 10,
              2 \<mapsto> ex_leaf AuxNode 11, 3 \<mapsto> ex_leaf Node 12]"


section \<open>Ranking stage: compaction of the layers\<close>

text \<open>
  The last step of \<open>ExtendedNestingGraph::computeRanking\<close>. \<open>low\<close> and \<open>high\<close> are
  the ranks of the top and bottom vertex of the root cluster, read before both are
  deleted; \<open>vs\<close> is the node list of the graph after the deletion and \<open>rank\<close> is
  \<open>m_rank\<close>. \<open>levels\<close> is the array \<open>Array<SListPure<node> > levels(low,high)\<close>;
  an index outside \<open>low..high\<close> is the error \<open>None\<close>.
\<close>

fun fill_levels ::
  "int \<Rightarrow> int \<Rightarrow> (node \<Rightarrow> int) \<Rightarrow> node list \<Rightarrow> (int \<Rightarrow> node list) \<Rightarrow> (int \<Rightarrow> node list) option" where
  "fill_levels low high rank [] levels = Some levels"
| "fill_levels low high rank (v # vs) levels =
     (if low \<le> rank v \<and> rank v \<le> high
      then fill_levels low high rank vs (levels(rank v := levels (rank v) @ [v]))
      else None)"

text \<open>
  The loop \<open>for(int i = low+1; i < high; ++i)\<close>: an empty level is skipped, the
  vertices of a non-empty level get \<open>currentRank\<close>, which is then incremented. The
  loop writes \<open>m_rank\<close> and reads the lists that were filled before it started.
\<close>

function reassign_loop ::
  "(int \<Rightarrow> node list) \<Rightarrow> int \<Rightarrow> int \<Rightarrow> (node \<Rightarrow> int) \<Rightarrow> int \<Rightarrow> (node \<Rightarrow> int) \<times> int" where
  "reassign_loop levels high i rank currentRank =
     (if i < high then
        (if levels i = [] then reassign_loop levels high (i + 1) rank currentRank
         else reassign_loop levels high (i + 1)
                (fold (\<lambda>v r. r(v := currentRank)) (levels i) rank) (currentRank + 1))
      else (rank, currentRank))"
  by pat_completeness auto
termination
  by (relation "measure (\<lambda>(levels, high, i, rank, c). nat (high - i))") auto

declare reassign_loop.simps [simp del]

text \<open>The pair returned is the new \<open>m_rank\<close> and \<open>m_numLayers\<close>.\<close>

definition reassignRanks ::
  "int \<Rightarrow> int \<Rightarrow> node list \<Rightarrow> (node \<Rightarrow> int) \<Rightarrow> ((node \<Rightarrow> int) \<times> int) option" where
  "reassignRanks low high vs rank =
     (case fill_levels low high rank vs (\<lambda>i. []) of
        None \<Rightarrow> None
      | Some levels \<Rightarrow> Some (reassign_loop levels high (low + 1) rank 0))"

text \<open>The number of non-empty levels with an index in \<open>i..j-1\<close>.\<close>

definition nonempty_below :: "(int \<Rightarrow> node list) \<Rightarrow> int \<Rightarrow> int \<Rightarrow> int" where
  "nonempty_below levels i j = int (length (filter (\<lambda>k. levels k \<noteq> []) [i..j - 1]))"


definition ex_rank :: "node \<Rightarrow> int" where
  "ex_rank v = (if v = 0 then 3 else if v = 1 then 7 else if v = 2 then 3 else 5)"

section \<open>Graphs and the extended nesting graph\<close>

text \<open>
  A graph is its list of nodes, the counter from which node indices are drawn, and its
  edges in creation order: the edge with index \<open>k\<close> is \<open>edges ! k\<close>, a pair of source
  and target. \<open>newNode\<close> and \<open>newEdge\<close> follow the class \<open>Graph\<close>, whose source is
  not part of the layering core: a new element gets the next index and is put at the
  end of its list.
\<close>

type_synonym edge = nat

record Graph =
  nodes :: "node list"
  nodeIdCount :: nat
  edges :: "(node \<times> node) list"

definition newNode :: "'a Graph_scheme \<Rightarrow> node \<times> 'a Graph_scheme" where
  "newNode G = (nodeIdCount G,
     G\<lparr>nodes := nodes G @ [nodeIdCount G], nodeIdCount := nodeIdCount G + 1\<rparr>)"

definition newEdge :: "node \<Rightarrow> node \<Rightarrow> 'a Graph_scheme \<Rightarrow> edge \<times> 'a Graph_scheme" where
  "newEdge u v G = (length (edges G), G\<lparr>edges := edges G @ [(u, v)]\<rparr>)"

text \<open>
  \<open>ExtendedNestingGraph\<close> is a \<open>Graph\<close> with the node, edge and cluster arrays the
  layering core keeps. A null pointer in \<open>m_mark\<close>, \<open>m_origEdge\<close> or \<open>m_origNode\<close>
  is \<open>None\<close>.
\<close>

record ExtendedNestingGraph = Graph +
  m_copy :: "node \<Rightarrow> node"
  m_topNode :: "cluster \<Rightarrow> node"
  m_bottomNode :: "cluster \<Rightarrow> node"
  m_copyEdge :: "edge \<Rightarrow> edge list"
  m_origEdge :: "edge \<Rightarrow> edge option"
  m_origNode :: "node \<Rightarrow> node option"
  m_rank :: "node \<Rightarrow> int"
  m_aeLevel :: "node \<Rightarrow> int"
  m_aeVisited :: "node \<Rightarrow> bool"
  m_auxDeg :: "node \<Rightarrow> int"
  m_mark :: "cluster \<Rightarrow> cluster option"
  m_markedClustersTree :: "cluster list"
  m_secondPath :: cluster
  m_secondPathTo :: node

text \<open>
  \<open>forall_adj_edges(e, w)\<close> visits the edges incident to \<open>w\<close>. The loops below read
  only the source and the target of each visited edge, skip an edge that leads back
  to \<open>w\<close>, and either stop at the first hit or accumulate sums and maxima, so the
  edges are taken in creation order.
\<close>

definition adjEdges :: "(node \<times> node) list \<Rightarrow> node \<Rightarrow> (node \<times> node) list" where
  "adjEdges es w = filter (\<lambda>(s, t). s = w \<or> t = w) es"

text \<open>
  \<open>ExtendedNestingGraph::reachable(v, u, successors)\<close>. \<open>scan_adj\<close> is the inner
  loop over the edges at the node \<open>w\<close> just taken from the queue: it stops with
  \<open>True\<close> at the first edge whose target is \<open>u\<close>, and marks and enqueues the
  unvisited targets before it.
\<close>

fun scan_adj ::
  "node \<Rightarrow> (node \<times> node) list \<Rightarrow> (node \<Rightarrow> bool) \<Rightarrow> node list
     \<Rightarrow> bool \<times> (node \<Rightarrow> bool) \<times> node list" where
  "scan_adj u [] vis Q = (False, vis, Q)"
| "scan_adj u ((s, t) # es) vis Q =
     (if t = u then (True, vis, Q)
      else if \<not> vis t then scan_adj u es (vis(t := True)) (Q @ [t])
      else scan_adj u es vis Q)"

text \<open>The targets not yet visited: the queue loop ends because each round removes one
  node from the queue and every node it adds leaves this set.\<close>

definition unvisited :: "(node \<times> node) list \<Rightarrow> (node \<Rightarrow> bool) \<Rightarrow> node set" where
  "unvisited es vis = {t \<in> snd ` set es. \<not> vis t}"

lemma finite_unvisited [simp]: "finite (unvisited es vis)"
  by (simp add: unvisited_def)

lemma scan_adj_measure:
  "set adj \<subseteq> set es \<Longrightarrow> scan_adj u adj vis Q = (found, vis1, Q1) \<Longrightarrow>
   card (unvisited es vis1) + length Q1 \<le> card (unvisited es vis) + length Q"
proof (induction u adj vis Q rule: scan_adj.induct)
  case (1 u vis Q)
  then show ?case by simp
next
  case (2 u s t adj vis Q)
  show ?case
  proof (cases "t = u")
    case True
    with 2(4) show ?thesis by simp
  next
    case False
    show ?thesis
    proof (cases "vis t")
      case True
      with 2 False show ?thesis by simp
    next
      case nv: False
      have tin: "t \<in> unvisited es vis"
        using 2(3) nv by (force simp: unvisited_def)
      have eq: "unvisited es (vis(t := True)) = unvisited es vis - {t}"
        by (auto simp: unvisited_def)
      have "card (unvisited es (vis(t := True))) + length (Q @ [t])
          = card (unvisited es vis) + length Q"
        using tin by (simp add: eq card_Diff_singleton) (metis card_gt_0_iff empty_iff finite_unvisited Suc_pred)
      moreover have sub: "set adj \<subseteq> set es" using 2(3) by simp
      have sc: "scan_adj u adj (vis(t := True)) (Q @ [t]) = (found, vis1, Q1)"
        using 2(4) False nv by simp
      have "card (unvisited es vis1) + length Q1
          \<le> card (unvisited es (vis(t := True))) + length (Q @ [t])"
        by (rule 2(1)[OF False nv sub sc])
      ultimately show ?thesis by simp
    qed
  qed
qed

lemma scan_adj_adjEdges_measure:
  "scan_adj u (adjEdges es w) vis Q = (found, vis1, Q1) \<Longrightarrow>
   card (unvisited es vis1) + length Q1 \<le> card (unvisited es vis) + length Q"
  by (rule scan_adj_measure [of "adjEdges es w"]) (auto simp: adjEdges_def)

text \<open>
  The loop \<open>while(!Q.empty())\<close>. When \<open>u\<close> is found, \<open>Q.conc(successors)\<close> moves
  the successors into \<open>Q\<close> (leaving \<open>successors\<close> empty) and the visited flag of
  every node in it is reset; when the queue runs empty the flags of \<open>successors\<close> are
  reset. The result is the return value, \<open>successors\<close> and \<open>m_aeVisited\<close>.
\<close>

function reach_loop ::
  "(node \<times> node) list \<Rightarrow> node \<Rightarrow> (node \<Rightarrow> bool) \<Rightarrow> node list \<Rightarrow> node list
     \<Rightarrow> bool \<times> node list \<times> (node \<Rightarrow> bool)" where
  "reach_loop es u vis [] successors =
     (False, successors, fold (\<lambda>vi m. m(vi := False)) successors vis)"
| "reach_loop es u vis (w # Q) successors =
     (case scan_adj u (adjEdges es w) vis Q of
        (found, vis1, Q1) \<Rightarrow>
          if found
          then (True, [], fold (\<lambda>vi m. m(vi := False)) (Q1 @ successors @ [w]) vis1)
          else reach_loop es u vis1 Q1 (successors @ [w]))"
  by pat_completeness auto
termination
  apply (relation "measure (\<lambda>(es, u, vis, Q, successors). card (unvisited es vis) + length Q)")
   apply simp
  apply clarsimp
  apply (drule sym)
  apply (drule scan_adj_adjEdges_measure)
  apply simp
  done

definition reachable ::
  "(node \<times> node) list \<Rightarrow> (node \<Rightarrow> bool) \<Rightarrow> node \<Rightarrow> node
     \<Rightarrow> bool \<times> node list \<times> (node \<Rightarrow> bool)" where
  "reachable es vis v u =
     (if u = v then (True, [], vis) else reach_loop es u (vis(v := True)) [v] [])"



text \<open>
  \<open>ExtendedNestingGraph::moveDown(v, successors, level)\<close>.
  \<open>dec_push t\<close> is the statement \<open>if(--m_auxDeg[t] == 0) Q.pushBack(t)\<close>.
\<close>

definition dec_push ::
  "node \<Rightarrow> (node \<Rightarrow> int) \<times> node list \<Rightarrow> (node \<Rightarrow> int) \<times> node list" where
  "dec_push t = (\<lambda>(deg, Q).
     let deg' = deg(t := deg t - 1) in if deg' t = 0 then (deg', Q @ [t]) else (deg', Q))"

definition moveDown_seed ::
  "(node \<times> node) list \<Rightarrow> node \<Rightarrow> (node \<Rightarrow> int) \<Rightarrow> (node \<Rightarrow> int) \<times> node list" where
  "moveDown_seed es v deg =
     fold (\<lambda>(s, t) st. if t \<noteq> v then dec_push t st else st) (adjEdges es v) (deg, [])"

definition moveDown_visit ::
  "(node \<times> node) list \<Rightarrow> (node \<Rightarrow> int) \<Rightarrow> node \<Rightarrow> (node \<Rightarrow> int) \<times> node list
     \<Rightarrow> int \<times> (node \<Rightarrow> int) \<times> node list" where
  "moveDown_visit es level w st0 =
     fold (\<lambda>(s, t) (maxLevel, st).
             (if s \<noteq> w then max maxLevel (level s) else maxLevel,
              if t \<noteq> w then dec_push t st else st))
       (adjEdges es w) (0, st0)"

text \<open>The targets whose counter is still positive: a node is enqueued when its counter
  drops from 1 to 0, so the loop of \<open>moveDown\<close> ends.\<close>

definition positive :: "(node \<times> node) list \<Rightarrow> (node \<Rightarrow> int) \<Rightarrow> node set" where
  "positive es deg = {t \<in> snd ` set es. 0 < deg t}"

lemma finite_positive [simp]: "finite (positive es deg)"
  by (simp add: positive_def)

lemma dec_push_measure:
  assumes "t \<in> snd ` set es" and "dec_push t (deg, Q) = (deg', Q')"
  shows "card (positive es deg') + length Q' \<le> card (positive es deg) + length Q"
proof (cases "deg t = 1")
  case True
  then have d: "deg' = deg(t := 0)" "Q' = Q @ [t]"
    using assms(2) by (auto simp: dec_push_def Let_def)
  have "t \<in> positive es deg" using True assms(1) by (simp add: positive_def)
  moreover have "positive es deg' = positive es deg - {t}"
    using d(1) by (auto simp: positive_def)
  ultimately have "card (positive es deg') + 1 = card (positive es deg)"
    by (simp add: card_Diff_singleton) (metis card_gt_0_iff empty_iff finite_positive Suc_pred)
  then show ?thesis using d(2) by simp
next
  case False
  then have d: "deg' = deg(t := deg t - 1)" "Q' = Q"
    using assms(2) by (auto simp: dec_push_def Let_def)
  have "positive es deg' \<subseteq> positive es deg"
    using d(1) by (auto simp: positive_def split: if_splits)
  then have "card (positive es deg') \<le> card (positive es deg)"
    by (intro card_mono) simp_all
  then show ?thesis using d(2) by simp
qed

lemma moveDown_visit_measure_aux:
  "set adj \<subseteq> set es \<Longrightarrow>
   fold (\<lambda>(s, t) (maxLevel, st).
             (if s \<noteq> w then max maxLevel (level s) else maxLevel,
              if t \<noteq> w then dec_push t st else st)) adj (m, deg, Q) = (m', deg', Q') \<Longrightarrow>
   card (positive es deg') + length Q' \<le> card (positive es deg) + length Q"
proof (induction adj arbitrary: m deg Q)
  case Nil
  then show ?case by simp
next
  case (Cons e adj)
  obtain s t where e: "e = (s, t)" by (cases e)
  show ?case
  proof (cases "t \<noteq> w")
    case True
    obtain deg1 Q1 where dp: "dec_push t (deg, Q) = (deg1, Q1)"
      by (cases "dec_push t (deg, Q)")
    have "t \<in> snd ` set es" using Cons(2) e by force
    from dec_push_measure [OF this dp]
    have "card (positive es deg1) + length Q1 \<le> card (positive es deg) + length Q" .
    moreover have "card (positive es deg') + length Q' \<le> card (positive es deg1) + length Q1"
      using Cons(1)[of _ deg1 Q1] Cons(2,3) e True dp by simp
    ultimately show ?thesis by simp
  next
    case False
    then show ?thesis using Cons(1)[of _ deg Q] Cons(2,3) e by simp
  qed
qed

lemma moveDown_visit_measure:
  "moveDown_visit es level w (deg, Q) = (m', deg', Q') \<Longrightarrow>
   card (positive es deg') + length Q' \<le> card (positive es deg) + length Q"
  unfolding moveDown_visit_def
  by (rule moveDown_visit_measure_aux [of "adjEdges es w"]) (auto simp: adjEdges_def)

function moveDown_loop ::
  "(node \<times> node) list \<Rightarrow> (node \<Rightarrow> int) \<Rightarrow> (node \<Rightarrow> int) \<Rightarrow> node list
     \<Rightarrow> (node \<Rightarrow> int) \<times> (node \<Rightarrow> int)" where
  "moveDown_loop es level deg [] = (level, deg)"
| "moveDown_loop es level deg (w # Q) =
     (case moveDown_visit es level w (deg, Q) of
        (maxLevel, deg', Q') \<Rightarrow> moveDown_loop es (level(w := maxLevel + 1)) deg' Q')"
  by pat_completeness auto
termination
  apply (relation "measure (\<lambda>(es, level, deg, Q). card (positive es deg) + length Q)")
   apply simp
  apply clarsimp
  apply (drule sym)
  apply (drule moveDown_visit_measure)
  apply simp
  done

definition moveDown ::
  "(node \<times> node) list \<Rightarrow> node \<Rightarrow> node list \<Rightarrow> (node \<Rightarrow> int) \<Rightarrow> (node \<Rightarrow> bool)
     \<Rightarrow> (node \<Rightarrow> int) \<Rightarrow> (node \<Rightarrow> int) \<times> (node \<Rightarrow> bool) \<times> (node \<Rightarrow> int)" where
  "moveDown es v successors level vis deg =
     (let vis1 = fold (\<lambda>vi m. m(vi := True)) successors vis;
          deg1 = fold (\<lambda>vi d. d(vi := 0)) successors deg;
          deg2 = fold (\<lambda>vi d.
                   fold (\<lambda>(s, t) d. if s \<noteq> vi \<and> vis1 s then d(vi := d vi + 1) else d)
                     (adjEdges es vi) d) successors deg1
      in case moveDown_seed es v deg2 of
           (deg3, Q) \<Rightarrow>
             (case moveDown_loop es level deg3 Q of
                (level', deg4) \<Rightarrow>
                  (level', fold (\<lambda>vi m. m(vi := False)) successors vis1, deg4)))"

text \<open>
  \<open>ExtendedNestingGraph::tryEdge(u, v, G, level)\<close>, with \<open>n = G.numberOfNodes()\<close>.
  The result is the return value, the graph \<open>G\<close>, the array \<open>level\<close> and the
  object itself (its arrays \<open>m_aeVisited\<close> and \<open>m_auxDeg\<close> are written).
\<close>

definition tryEdge ::
  "node \<Rightarrow> node \<Rightarrow> Graph \<Rightarrow> (node \<Rightarrow> int) \<Rightarrow> ExtendedNestingGraph
     \<Rightarrow> bool \<times> Graph \<times> (node \<Rightarrow> int) \<times> ExtendedNestingGraph" where
  "tryEdge u v G level H =
     (let n = int (length (nodes G)) in
      if level u = - 1 then
        (True, snd (newEdge u v G),
         (if level v = - 1 then (level(v := n))(u := n - 1) else level(u := level v - 1)), H)
      else if level v = - 1 then
        (True, snd (newEdge u v G), level(v := level u + 1), H)
      else if level u \<ge> level v then
        (case reachable (edges G) (m_aeVisited H) v u of
           (r, successors, vis) \<Rightarrow>
             if r then (False, G, level, H\<lparr>m_aeVisited := vis\<rparr>)
             else (case moveDown (edges G) v successors (level(v := level u + 1)) vis (m_auxDeg H) of
                     (level', vis', deg') \<Rightarrow>
                       (True, snd (newEdge u v G), level',
                        H\<lparr>m_aeVisited := vis', m_auxDeg := deg'\<rparr>)))
      else (True, snd (newEdge u v G), level, H))"

text \<open>
  \<open>ExtendedNestingGraph::addEdge(u, v, addAlways)\<close>; the returned edge is \<open>None\<close>
  for \<open>nullptr\<close>.
\<close>

definition addEdge ::
  "node \<Rightarrow> node \<Rightarrow> bool \<Rightarrow> ExtendedNestingGraph \<Rightarrow> edge option \<times> ExtendedNestingGraph" where
  "addEdge u v addAlways H =
     (if m_aeLevel H u < m_aeLevel H v
      then (case newEdge u v H of (e, H') \<Rightarrow> (Some e, H'))
      else (case reachable (edges H) (m_aeVisited H) v u of
              (r, successors, vis) \<Rightarrow>
                if \<not> r then
                  (let d = m_aeLevel H u - m_aeLevel H v + 1 in
                   case newEdge u v
                          (H\<lparr>m_aeVisited := vis,
                             m_aeLevel := fold (\<lambda>vi l. l(vi := l vi + d)) successors (m_aeLevel H)\<rparr>)
                   of (e, H') \<Rightarrow> (Some e, H'))
                else if addAlways
                then (case newEdge v u (H\<lparr>m_aeVisited := vis\<rparr>) of (e, H') \<Rightarrow> (Some e, H'))
                else (None, H\<lparr>m_aeVisited := vis\<rparr>)))"

text \<open>\<open>m_aeLevel\<close> is a topological labeling: every edge goes from a smaller to a
  strictly larger level.\<close>

definition topological :: "ExtendedNestingGraph \<Rightarrow> bool" where
  "topological H = (\<forall>(s, t) \<in> set (edges H). m_aeLevel H s < m_aeLevel H t)"


text \<open>
  Two small extended nesting graphs over a root cluster only, with top node 2,
  bottom node 3 and the containment edges and levels set as the constructor does
  (top, then the vertices, then bottom).
\<close>

definition ex_ENG :: "node list \<Rightarrow> (node \<times> node) list \<Rightarrow> (node \<Rightarrow> int) \<Rightarrow> ExtendedNestingGraph" where
  "ex_ENG ns es lv = \<lparr>nodes = ns, nodeIdCount = length ns, edges = es,
     m_copy = (\<lambda>v. v), m_topNode = (\<lambda>c. 2), m_bottomNode = (\<lambda>c. 3),
     m_copyEdge = (\<lambda>e. []), m_origEdge = (\<lambda>e. None), m_origNode = (\<lambda>v. None),
     m_rank = (\<lambda>v. 0), m_aeLevel = lv, m_aeVisited = (\<lambda>v. False), m_auxDeg = (\<lambda>v. 0),
     m_mark = (\<lambda>c. None), m_markedClustersTree = [], m_secondPath = 0, m_secondPathTo = 0\<rparr>"

definition ex_level :: "node \<Rightarrow> int" where
  "ex_level v = (if v = 2 then 0 else if v = 0 then 1 else if v = 1 then 2 else 3)"

definition ex_H :: ExtendedNestingGraph where
  "ex_H = ex_ENG [0, 1, 2, 3] [(2, 0), (0, 3), (2, 1), (1, 3)] ex_level"

definition ex_G :: Graph where
  "ex_G = \<lparr>nodes = [0, 1, 2], nodeIdCount = 3, edges = [(0, 1), (1, 2)]\<rparr>"

definition ex_Glevel :: "node \<Rightarrow> int" where
  "ex_Glevel v = (if v = 0 then 0 else if v = 1 then 1 else 2)"

section \<open>Crossing counts\<close>

text \<open>
  Modelled from the spec: the class \<open>RCCrossings\<close> is declared in a header that is
  not among the source files. Section 4.6: a crossing count is a pair
  \<open>(cnClusters, cnEdges)\<close> compared lexicographically; \<open>isZero\<close> means both are
  zero; \<open>setInfinity\<close> yields the maximum representable value. The components are C++
  \<open>int\<close>s; they are modelled as integers, the counts of a layout staying far below
  the 32-bit range.
\<close>

record RCCrossings =
  m_cnClusters :: int
  m_cnEdges :: int

definition rc_less :: "RCCrossings \<Rightarrow> RCCrossings \<Rightarrow> bool" where
  "rc_less x y = (if m_cnClusters x = m_cnClusters y then m_cnEdges x < m_cnEdges y
                  else m_cnClusters x < m_cnClusters y)"

definition rc_le :: "RCCrossings \<Rightarrow> RCCrossings \<Rightarrow> bool" where
  "rc_le x y = (if m_cnClusters x = m_cnClusters y then m_cnEdges x \<le> m_cnEdges y
                else m_cnClusters x \<le> m_cnClusters y)"

definition isZero :: "RCCrossings \<Rightarrow> bool" where
  "isZero x = (m_cnClusters x = 0 \<and> m_cnEdges x = 0)"

definition INT_MAX :: int where
  "INT_MAX = 2147483647"

definition setInfinity :: RCCrossings where
  "setInfinity = \<lparr>m_cnClusters = INT_MAX, m_cnEdges = INT_MAX\<rparr>"

section \<open>The orchestrator of crossing reduction\<close>

text \<open>
  \<open>SugiyamaLayout::reduceCrossings(ExtendedNestingGraph &H)\<close>. Of \<open>H\<close> the
  orchestrator uses the child order of all compound nodes on all layers (with the
  positions computed from it), here a value of an arbitrary type \<open>'o\<close>, and the
  order kept by \<open>storeCurrentPos\<close>: section 4.7, \<open>storeCurrentPos\<close> snapshots every
  layer's child order and \<open>restorePos\<close> re-materializes from the snapshot. The two
  traversals and \<open>permute\<close> change the current order only and are parameters; the
  traversals return the crossing count of the sweep, and \<open>permute\<close> may differ from
  one restart to the next.
\<close>

record 'o ENGpos =
  order :: 'o
  stored :: 'o

definition storeCurrentPos :: "'o ENGpos \<Rightarrow> 'o ENGpos" where
  "storeCurrentPos hier = hier\<lparr>stored := order hier\<rparr>"

definition restorePos :: "'o ENGpos \<Rightarrow> 'o ENGpos" where
  "restorePos hier = hier\<lparr>order := stored hier\<rparr>"

text \<open>
  The variables of the orchestrator: \<open>m_nCrossingsCluster\<close> is the best count so
  far. \<open>saves\<close> is not a variable of the program: it logs every call of
  \<open>storeCurrentPos\<close> with the count at which it was made and the order it saved.
\<close>

record 'o SugiyamaLayout =
  hier :: "'o ENGpos"
  m_nCrossingsCluster :: RCCrossings
  nCrossingsOld :: RCCrossings
  nFails :: int
  saves :: "(RCCrossings \<times> 'o) list"

text \<open>
  The block after each traversal, \<open>if(nCrossingsNew < nCrossingsOld) ... else
  --nFails\<close>; the flag returned says that the block left the loop by \<open>break\<close>.
\<close>

definition accept :: "int \<Rightarrow> RCCrossings \<Rightarrow> 'o SugiyamaLayout \<Rightarrow> bool \<times> 'o SugiyamaLayout" where
  "accept m_fails nCrossingsNew s =
     (if rc_less nCrossingsNew (nCrossingsOld s) then
        (if rc_less nCrossingsNew (m_nCrossingsCluster s) then
           (let s1 = s\<lparr>hier := storeCurrentPos (hier s),
                        saves := saves s @ [(nCrossingsNew, order (hier s))],
                        m_nCrossingsCluster := nCrossingsNew\<rparr>
            in if isZero nCrossingsNew then (True, s1)
               else (False, s1\<lparr>nCrossingsOld := nCrossingsNew, nFails := m_fails + 1\<rparr>))
         else (False, s\<lparr>nCrossingsOld := nCrossingsNew, nFails := m_fails + 1\<rparr>))
      else (False, s\<lparr>nFails := nFails s - 1\<rparr>))"

definition traverse :: "('o \<Rightarrow> RCCrossings \<times> 'o) \<Rightarrow> 'o SugiyamaLayout \<Rightarrow> RCCrossings \<times> 'o SugiyamaLayout" where
  "traverse sweep s =
     (case sweep (order (hier s)) of (cr, ord) \<Rightarrow> (cr, s\<lparr>hier := (hier s)\<lparr>order := ord\<rparr>\<rparr>))"

text \<open>The loop \<open>do ... while(nFails > 0)\<close>; it need not end for arbitrary
  traversals, so not returning is the value \<open>None\<close>.\<close>

partial_function (option) sweep_loop ::
  "('o \<Rightarrow> RCCrossings \<times> 'o) \<Rightarrow> ('o \<Rightarrow> RCCrossings \<times> 'o) \<Rightarrow> int
     \<Rightarrow> 'o SugiyamaLayout \<Rightarrow> 'o SugiyamaLayout option" where
  "sweep_loop traverseTopDown traverseBottomUp m_fails s =
     (case traverse traverseTopDown s of
        (nCrossingsNew, s1) \<Rightarrow>
          (case accept m_fails nCrossingsNew s1 of
             (brk, s2) \<Rightarrow>
               if brk then Some s2
               else (case traverse traverseBottomUp s2 of
                       (nCrossingsNew', s3) \<Rightarrow>
                         (case accept m_fails nCrossingsNew' s3 of
                            (brk', s4) \<Rightarrow>
                              if brk' then Some s4
                              else if nFails s4 > 0
                              then sweep_loop traverseTopDown traverseBottomUp m_fails s4
                              else Some s4))))"

text \<open>The loop \<open>for(int i = 1; ; ++i)\<close> over the runs.\<close>

partial_function (option) run_loop ::
  "('o \<Rightarrow> RCCrossings \<times> 'o) \<Rightarrow> ('o \<Rightarrow> RCCrossings \<times> 'o) \<Rightarrow> (int \<Rightarrow> 'o \<Rightarrow> 'o)
     \<Rightarrow> int \<Rightarrow> int \<Rightarrow> int \<Rightarrow> 'o SugiyamaLayout \<Rightarrow> 'o SugiyamaLayout option" where
  "run_loop traverseTopDown traverseBottomUp permute m_fails m_runs i s =
     Option.bind (sweep_loop traverseTopDown traverseBottomUp m_fails (s\<lparr>nFails := m_fails + 1\<rparr>))
       (\<lambda>s1. if isZero (m_nCrossingsCluster s1) \<or> i \<ge> m_runs then Some s1
             else run_loop traverseTopDown traverseBottomUp permute m_fails m_runs (i + 1)
                    (s1\<lparr>hier := (hier s1)\<lparr>order := permute i (order (hier s1))\<rparr>,
                        nCrossingsOld := setInfinity\<rparr>))"

definition reduceCrossings ::
  "('o \<Rightarrow> RCCrossings \<times> 'o) \<Rightarrow> ('o \<Rightarrow> RCCrossings \<times> 'o) \<Rightarrow> (int \<Rightarrow> 'o \<Rightarrow> 'o)
     \<Rightarrow> int \<Rightarrow> int \<Rightarrow> 'o ENGpos \<Rightarrow> 'o SugiyamaLayout option" where
  "reduceCrossings traverseTopDown traverseBottomUp permute m_fails m_runs H0 =
     Option.bind
       (run_loop traverseTopDown traverseBottomUp permute m_fails m_runs 1
          \<lparr>hier = H0, m_nCrossingsCluster = setInfinity, nCrossingsOld = setInfinity,
           nFails = m_fails + 1, saves = []\<rparr>)
       (\<lambda>s. Some (s\<lparr>hier := restorePos (hier s)\<rparr>))"

text \<open>What holds of the log whenever control is between two statements of the
  orchestrator.\<close>

definition saved_ok :: "'o SugiyamaLayout \<Rightarrow> bool" where
  "saved_ok s =
     (sorted_wrt (\<lambda>a b. rc_less b a) (map fst (saves s))
      \<and> list_all (\<lambda>c. rc_less c setInfinity) (map fst (saves s))
      \<and> (if saves s = [] then m_nCrossingsCluster s = setInfinity
          else m_nCrossingsCluster s = fst (last (saves s))
             \<and> stored (hier s) = snd (last (saves s))))"

definition ex_sweep :: "nat \<Rightarrow> RCCrossings \<times> nat" where
  "ex_sweep k = (\<lparr>m_cnClusters = 0, m_cnEdges = int (2 - k)\<rparr>, k + 1)"

definition ex_result :: "nat SugiyamaLayout" where
  "ex_result = \<lparr>hier = \<lparr>order = 3, stored = 3\<rparr>,
     m_nCrossingsCluster = \<lparr>m_cnClusters = 0, m_cnEdges = 0\<rparr>,
     nCrossingsOld = \<lparr>m_cnClusters = 0, m_cnEdges = 1\<rparr>, nFails = 1,
     saves = [(\<lparr>m_cnClusters = 0, m_cnEdges = 2\<rparr>, 1), (\<lparr>m_cnClusters = 0, m_cnEdges = 1\<rparr>, 2),
              (\<lparr>m_cnClusters = 0, m_cnEdges = 0\<rparr>, 3)]\<rparr>"

section \<open>Preference edges of the per-compound crossing reduction\<close>

text \<open>
  Modelled from the spec: the arithmetic and the comparer of \<open>RCCrossings\<close> are in
  the header that is not among the source files. Sum and difference are taken by
  component. Section 4.6, step 4, has the preference edges sorted by the difference
  \<open>reverseCost - cost\<close> so that the largest benefit of the preferred direction
  comes first: \<open>RCCrossings::compare(x, y)\<close> is negative when \<open>x\<close> is
  lexicographically the larger, first by clusters, then by edges.
\<close>

definition rc_minus :: "RCCrossings \<Rightarrow> RCCrossings \<Rightarrow> RCCrossings" where
  "rc_minus x y = \<lparr>m_cnClusters = m_cnClusters x - m_cnClusters y,
                   m_cnEdges = m_cnEdges x - m_cnEdges y\<rparr>"

definition rc_plus :: "RCCrossings \<Rightarrow> RCCrossings \<Rightarrow> RCCrossings" where
  "rc_plus x y = \<lparr>m_cnClusters = m_cnClusters x + m_cnClusters y,
                  m_cnEdges = m_cnEdges x + m_cnEdges y\<rparr>"

definition RCCrossings_compare :: "RCCrossings \<Rightarrow> RCCrossings \<Rightarrow> int" where
  "RCCrossings_compare x y =
     (let dc = m_cnClusters y - m_cnClusters x
      in if dc \<noteq> 0 then dc else m_cnEdges y - m_cnEdges x)"

text \<open>\<open>struct RCEdge\<close> with \<open>weight()\<close>, and \<open>LocationRelationshipComparer\<close>.\<close>

record RCEdge =
  m_src :: node
  m_tgt :: node
  m_cr :: RCCrossings
  m_crReverse :: RCCrossings

definition weight :: "RCEdge \<Rightarrow> RCCrossings" where
  "weight e = rc_minus (m_crReverse e) (m_cr e)"

definition LocationRelationshipComparer_compare :: "RCEdge \<Rightarrow> RCEdge \<Rightarrow> int" where
  "LocationRelationshipComparer_compare x y = RCCrossings_compare (weight x) (weight y)"

text \<open>
  The part of \<open>ExtendedNestingGraph::reduceCrossings(LHTreeNode *cNode, bool
  dirTopDown)\<close> from the list of location relationships on. At this point \<open>cn\<close> is
  the crossings matrix of the \<open>n\<close> children and \<open>toG[j]\<close> the node of the ordering
  graph \<open>G\<close> made for child \<open>j\<close>. \<open>relationship\<close> is the body of the double loop
  \<open>for(j = 0; j < n; ++j) for(int k = j+1; k < n; ++k)\<close>.
\<close>

definition relationship ::
  "(nat \<Rightarrow> node) \<Rightarrow> (nat \<Rightarrow> nat \<Rightarrow> RCCrossings) \<Rightarrow> nat \<Rightarrow> nat \<Rightarrow> RCEdge" where
  "relationship toG cn j k =
     (if rc_le (cn j k) (cn k j)
      then \<lparr>m_src = toG j, m_tgt = toG k, m_cr = cn j k, m_crReverse = cn k j\<rparr>
      else \<lparr>m_src = toG k, m_tgt = toG j, m_cr = cn k j, m_crReverse = cn j k\<rparr>)"

definition relationships ::
  "(nat \<Rightarrow> node) \<Rightarrow> (nat \<Rightarrow> nat \<Rightarrow> RCCrossings) \<Rightarrow> nat \<Rightarrow> RCEdge list" where
  "relationships toG cn n =
     concat (map (\<lambda>j. map (\<lambda>k. relationship toG cn j k) [j + 1..<n]) [0..<n])"

text \<open>
  The loop \<open>for(const RCEdge &rce : edges)\<close> after the sort: the state is the
  ordering graph, its levels, the object and \<open>numCrossings\<close>. \<open>attempts\<close> is not a
  variable of the program: it logs the calls of \<open>tryEdge\<close> in the order made.
\<close>

record placing =
  pl_G :: Graph
  pl_level :: "node \<Rightarrow> int"
  pl_H :: ExtendedNestingGraph
  numCrossings :: RCCrossings
  attempts :: "(node \<times> node) list"

definition place :: "RCEdge \<Rightarrow> placing \<Rightarrow> placing" where
  "place rce s =
     (case tryEdge (m_src rce) (m_tgt rce) (pl_G s) (pl_level s) (pl_H s) of
        (ok, G', level', H') \<Rightarrow>
          \<lparr>pl_G = G', pl_level = level', pl_H = H',
           numCrossings = rc_plus (numCrossings s) (if ok then m_cr rce else m_crReverse rce),
           attempts = attempts s @ [(m_src rce, m_tgt rce)]\<rparr>)"

text \<open>\<open>List::quicksort\<close> is not among the source files and is a parameter.\<close>

definition placeRelationships ::
  "(RCEdge list \<Rightarrow> RCEdge list) \<Rightarrow> (nat \<Rightarrow> node) \<Rightarrow> (nat \<Rightarrow> nat \<Rightarrow> RCCrossings) \<Rightarrow> nat
     \<Rightarrow> placing \<Rightarrow> placing" where
  "placeRelationships quicksort toG cn n s = fold place (quicksort (relationships toG cn n)) s"

text \<open>
  What is asked of the sort: it returns a permutation of the list in which no element
  is less than an earlier one, where \<open>x\<close> is less than \<open>y\<close> when \<open>compare(x, y) < 0\<close>.
\<close>

definition sorts_by :: "('a \<Rightarrow> 'a \<Rightarrow> int) \<Rightarrow> ('a list \<Rightarrow> 'a list) \<Rightarrow> bool" where
  "sorts_by cmp qs = (\<forall>xs. mset (qs xs) = mset xs \<and> sorted_wrt (\<lambda>x y. \<not> cmp y x < 0) (qs xs))"

text \<open>A sort that meets this, and an example: three children and their crossings
  matrix.\<close>

fun insert_by :: "('a \<Rightarrow> 'a \<Rightarrow> int) \<Rightarrow> 'a \<Rightarrow> 'a list \<Rightarrow> 'a list" where
  "insert_by cmp x [] = [x]"
| "insert_by cmp x (y # ys) = (if cmp y x < 0 then y # insert_by cmp x ys else x # y # ys)"

definition insertion_sort :: "('a \<Rightarrow> 'a \<Rightarrow> int) \<Rightarrow> 'a list \<Rightarrow> 'a list" where
  "insertion_sort cmp xs = foldr (insert_by cmp) xs []"

definition ex_cn :: "nat \<Rightarrow> nat \<Rightarrow> RCCrossings" where
  "ex_cn j k =
     (if (j, k) = (0, 1) then \<lparr>m_cnClusters = 0, m_cnEdges = 3\<rparr>
      else if (j, k) = (1, 0) then \<lparr>m_cnClusters = 0, m_cnEdges = 1\<rparr>
      else if (j, k) = (2, 0) then \<lparr>m_cnClusters = 0, m_cnEdges = 5\<rparr>
      else if (j, k) = (1, 2) then \<lparr>m_cnClusters = 1, m_cnEdges = 0\<rparr>
      else if (j, k) = (2, 1) then \<lparr>m_cnClusters = 0, m_cnEdges = 7\<rparr>
      else \<lparr>m_cnClusters = 0, m_cnEdges = 0\<rparr>)"

definition ex_placing :: placing where
  "ex_placing = \<lparr>pl_G = \<lparr>nodes = [0, 1, 2], nodeIdCount = 3, edges = []\<rparr>,
     pl_level = (\<lambda>v. - 1), pl_H = ex_H,
     numCrossings = \<lparr>m_cnClusters = 0, m_cnEdges = 0\<rparr>, attempts = []\<rparr>"

text \<open>Minimum and maximum in the lexicographic order.\<close>

definition rc_min :: "RCCrossings \<Rightarrow> RCCrossings \<Rightarrow> RCCrossings" where
  "rc_min x y = (if rc_le x y then x else y)"

definition rc_max :: "RCCrossings \<Rightarrow> RCCrossings \<Rightarrow> RCCrossings" where
  "rc_max x y = (if rc_le x y then y else x)"

section \<open>Saving and restoring the child orders\<close>

text \<open>
  \<open>ENGLayer::store\<close>, \<open>ENGLayer::restore\<close> and \<open>ENGLayer::permute\<close> walk the tree
  of a layer with a queue that starts with the root; for a compound node they call
  the node's operation and then append its children to the queue.

  Modelled from the spec: \<open>LHTreeNode::store()\<close>, \<open>restore()\<close> and \<open>permute()\<close>
  are in a header that is not among the source files. Section 4.7: \<open>storeCurrentPos\<close>
  snapshots every layer's child order (\<open>m_storedChild\<close> becomes \<open>m_child\<close>),
  \<open>restorePos\<close> re-materializes from the snapshot (\<open>m_child\<close> becomes
  \<open>m_storedChild\<close>), and \<open>permute\<close> shuffles the children of each compound node;
  the permutation drawn is the parameter \<open>shuffle\<close>. The walks need not end on a
  store that is not a tree, so not returning is the value \<open>None\<close>, as is following a
  pointer to no object.
\<close>

partial_function (option) store_walk :: "addr list \<Rightarrow> heap \<Rightarrow> heap option" where
  "store_walk Q h =
     (case Q of
        [] \<Rightarrow> Some h
      | p # Q' \<Rightarrow>
          (case h p of
             None \<Rightarrow> None
           | Some nd \<Rightarrow>
               if m_type nd = Compound
               then store_walk (Q' @ m_child nd) (h(p \<mapsto> nd\<lparr>m_storedChild := m_child nd\<rparr>))
               else store_walk Q' h))"

partial_function (option) restore_walk :: "addr list \<Rightarrow> heap \<Rightarrow> heap option" where
  "restore_walk Q h =
     (case Q of
        [] \<Rightarrow> Some h
      | p # Q' \<Rightarrow>
          (case h p of
             None \<Rightarrow> None
           | Some nd \<Rightarrow>
               if m_type nd = Compound
               then restore_walk (Q' @ m_storedChild nd) (h(p \<mapsto> nd\<lparr>m_child := m_storedChild nd\<rparr>))
               else restore_walk Q' h))"

partial_function (option) permute_walk ::
  "(addr list \<Rightarrow> addr list) \<Rightarrow> addr list \<Rightarrow> heap \<Rightarrow> heap option" where
  "permute_walk shuffle Q h =
     (case Q of
        [] \<Rightarrow> Some h
      | p # Q' \<Rightarrow>
          (case h p of
             None \<Rightarrow> None
           | Some nd \<Rightarrow>
               if m_type nd = Compound
               then permute_walk shuffle (Q' @ shuffle (m_child nd))
                      (h(p \<mapsto> nd\<lparr>m_child := shuffle (m_child nd)\<rparr>))
               else permute_walk shuffle Q' h))"

text \<open>
  \<open>ExtendedNestingGraph::assignPos(vNode, count)\<close> numbers the leaves below
  \<open>vNode\<close> from left to right: a compound node passes \<open>count\<close> through its children
  in order, a leaf takes \<open>count++\<close> as the position of its vertex. \<open>todo\<close> holds
  the nodes whose calls are still to be made, in the order of the calls.
\<close>

partial_function (option) assignPos ::
  "heap \<Rightarrow> addr list \<Rightarrow> (node \<Rightarrow> int) \<Rightarrow> int \<Rightarrow> ((node \<Rightarrow> int) \<times> int) option" where
  "assignPos h todo pos cnt =
     (case todo of
        [] \<Rightarrow> Some (pos, cnt)
      | p # rest \<Rightarrow>
          (case h p of
             None \<Rightarrow> None
           | Some nd \<Rightarrow>
               if m_type nd = Compound
               then assignPos h (m_child nd @ rest) pos cnt
               else assignPos h rest (pos(m_node nd := cnt)) (cnt + 1)))"

text \<open>
  \<open>ExtendedNestingGraph::storeCurrentPos\<close>, \<open>restorePos\<close> and \<open>permute\<close>:
  \<open>layers\<close> lists \<open>m_layer[i].root()\<close> for \<open>i = 0, ..., m_numLayers - 1\<close>, and the
  state is the store of tree nodes with \<open>m_pos\<close>. \<open>restorePos\<close> restores a layer
  and assigns its positions from 0 before it goes to the next layer;
  \<open>assignPos_layers\<close> is that assignment alone. \<open>permute\<close> assigns the positions of
  layer 0 only.
\<close>

fun storeCurrentPos_layers :: "addr list \<Rightarrow> heap \<Rightarrow> heap option" where
  "storeCurrentPos_layers [] h = Some h"
| "storeCurrentPos_layers (root # layers) h =
     Option.bind (store_walk [root] h) (storeCurrentPos_layers layers)"

fun assignPos_layers :: "addr list \<Rightarrow> heap \<Rightarrow> (node \<Rightarrow> int) \<Rightarrow> (node \<Rightarrow> int) option" where
  "assignPos_layers [] h pos = Some pos"
| "assignPos_layers (root # layers) h pos =
     Option.bind (assignPos h [root] pos 0) (\<lambda>(pos', cnt). assignPos_layers layers h pos')"

fun restorePos_layers ::
  "addr list \<Rightarrow> heap \<times> (node \<Rightarrow> int) \<Rightarrow> (heap \<times> (node \<Rightarrow> int)) option" where
  "restorePos_layers [] s = Some s"
| "restorePos_layers (root # layers) (h, pos) =
     Option.bind (restore_walk [root] h)
       (\<lambda>h'. Option.bind (assignPos h' [root] pos 0)
          (\<lambda>(pos', cnt). restorePos_layers layers (h', pos')))"

fun permute_layers :: "(addr list \<Rightarrow> addr list) \<Rightarrow> addr list \<Rightarrow> heap \<Rightarrow> heap option" where
  "permute_layers shuffle [] h = Some h"
| "permute_layers shuffle (root # layers) h =
     Option.bind (permute_walk shuffle [root] h) (permute_layers shuffle layers)"

definition permute_ENG ::
  "(addr list \<Rightarrow> addr list) \<Rightarrow> addr list \<Rightarrow> heap \<times> (node \<Rightarrow> int)
     \<Rightarrow> (heap \<times> (node \<Rightarrow> int)) option" where
  "permute_ENG shuffle layers s =
     (case s of (h, pos) \<Rightarrow>
        Option.bind (permute_layers shuffle layers h)
          (\<lambda>h'. case layers of
                   [] \<Rightarrow> None
                 | root # rest \<Rightarrow>
                     Option.bind (assignPos h' [root] pos 0) (\<lambda>(pos', cnt). Some (h', pos'))))"

text \<open>\<open>r\<close> is \<open>h\<close> after \<open>store()\<close> on some of its nodes.\<close>

definition stored_upd :: "heap \<Rightarrow> heap \<Rightarrow> bool" where
  "stored_upd h r =
     (\<forall>p. case h p of
            None \<Rightarrow> r p = None
          | Some nd \<Rightarrow> r p = Some nd \<or> r p = Some (nd\<lparr>m_storedChild := m_child nd\<rparr>))"

text \<open>
  Two layers: a compound node 0 over the leaf of vertex 20, and a compound node 2 over
  the leaves of the vertices 10 and 11; the same after \<open>permute\<close> has swapped the
  children of node 2, and after \<open>storeCurrentPos\<close>.
\<close>

definition ex_layers :: heap where
  "ex_layers = [0 \<mapsto> ex_compound 0 [1], 1 \<mapsto> ex_leaf Node 20,
                2 \<mapsto> ex_compound 0 [3, 4], 3 \<mapsto> ex_leaf Node 10, 4 \<mapsto> ex_leaf Node 11]"

definition ex_permuted :: heap where
  "ex_permuted = [0 \<mapsto> ex_compound 0 [1], 1 \<mapsto> ex_leaf Node 20,
                  2 \<mapsto> ex_compound 0 [4, 3], 3 \<mapsto> ex_leaf Node 10, 4 \<mapsto> ex_leaf Node 11]"

definition ex_stored :: heap where
  "ex_stored = [0 \<mapsto> (ex_compound 0 [1])\<lparr>m_storedChild := [1]\<rparr>, 1 \<mapsto> ex_leaf Node 20,
                2 \<mapsto> (ex_compound 0 [4, 3])\<lparr>m_storedChild := [4, 3]\<rparr>,
                3 \<mapsto> ex_leaf Node 10, 4 \<mapsto> ex_leaf Node 11]"

definition ex_pos :: "node \<Rightarrow> int" where
  "ex_pos v = (if v = 11 then 1 else 0)"

definition ex_pos' :: "node \<Rightarrow> int" where
  "ex_pos' v = (if v = 10 then 1 else 0)"

section \<open>Simplifying the adjacency lists\<close>

text \<open>
  \<open>AdjacencyComparer::compare\<close> reads, through the pointer \<open>m_v\<close> of an entry,
  whether the tree node is compound and the index of its cluster or of its vertex;
  \<open>m_u\<close> is a vertex of the graph, which is its index. The three observers read the
  store; \<open>simplifyAdjacencies\<close> below fails before it sorts when an entry points to
  no object.
\<close>

definition isCompound :: "heap \<Rightarrow> addr \<Rightarrow> bool" where
  "isCompound h a = (case h a of None \<Rightarrow> False | Some nd \<Rightarrow> m_type nd = Compound)"

definition originalCluster_index :: "heap \<Rightarrow> addr \<Rightarrow> nat" where
  "originalCluster_index h a = (case h a of None \<Rightarrow> 0 | Some nd \<Rightarrow> m_origCluster nd)"

definition getNode_index :: "heap \<Rightarrow> addr \<Rightarrow> nat" where
  "getNode_index h a = (case h a of None \<Rightarrow> 0 | Some nd \<Rightarrow> m_node nd)"

definition AdjacencyComparer_compare :: "heap \<Rightarrow> Adjacency \<Rightarrow> Adjacency \<Rightarrow> int" where
  "AdjacencyComparer_compare h x y =
     (if m_u x < m_u y then - 1
      else if m_u x = m_u y then
        (if isCompound h (m_v x) then
           (if \<not> isCompound h (m_v y) then - 1
            else if originalCluster_index h (m_v x) < originalCluster_index h (m_v y)
                 then - 1 else 1)
         else if isCompound h (m_v y) then 1
         else if getNode_index h (m_v x) < getNode_index h (m_v y) then - 1 else 1)
      else 1)"

text \<open>
  The loop of \<open>ENGLayer::simplifyAdjacencies(List<LHTreeNode::Adjacency> &adjs)\<close>
  after the sort: \<open>a\<close> is the entry at the iterator \<open>it\<close>, the list holds the
  entries from \<open>itNext\<close> on. An entry with the same \<open>m_u\<close> and the same \<open>m_v\<close>
  is deleted and its weight added to \<open>a\<close>; otherwise both iterators move on.
\<close>

fun merge_runs :: "Adjacency \<Rightarrow> Adjacency list \<Rightarrow> Adjacency list" where
  "merge_runs a [] = [a]"
| "merge_runs a (b # bs) =
     (if m_u a = m_u b \<and> m_v a = m_v b
      then merge_runs (a\<lparr>m_weight := m_weight a + m_weight b\<rparr>) bs
      else a # merge_runs b bs)"

definition simplifyAdjacencies ::
  "((Adjacency \<Rightarrow> Adjacency \<Rightarrow> int) \<Rightarrow> Adjacency list \<Rightarrow> Adjacency list) \<Rightarrow> heap
     \<Rightarrow> Adjacency list \<Rightarrow> Adjacency list option" where
  "simplifyAdjacencies quicksort h adjs =
     (if adjs = [] then Some []
      else if \<exists>a \<in> set adjs. h (m_v a) = None then None
      else (case quicksort (AdjacencyComparer_compare h) adjs of
              [] \<Rightarrow> Some []
            | a # as \<Rightarrow> Some (merge_runs a as)))"

text \<open>
  \<open>ENGLayer::simplifyAdjacencies()\<close> walks the tree of the layer with a queue and
  simplifies both lists of every node, compound or not.
\<close>

partial_function (option) simplify_walk ::
  "((Adjacency \<Rightarrow> Adjacency \<Rightarrow> int) \<Rightarrow> Adjacency list \<Rightarrow> Adjacency list) \<Rightarrow> addr list
     \<Rightarrow> heap \<Rightarrow> heap option" where
  "simplify_walk quicksort Q h =
     (case Q of
        [] \<Rightarrow> Some h
      | p # Q' \<Rightarrow>
          (case h p of
             None \<Rightarrow> None
           | Some nd \<Rightarrow>
               (case simplifyAdjacencies quicksort h (m_upperAdj nd) of
                  None \<Rightarrow> None
                | Some U \<Rightarrow>
                    (case simplifyAdjacencies quicksort (h(p \<mapsto> nd\<lparr>m_upperAdj := U\<rparr>))
                            (m_lowerAdj nd) of
                       None \<Rightarrow> None
                     | Some L \<Rightarrow>
                         simplify_walk quicksort (Q' @ m_child nd)
                           (h(p \<mapsto> nd\<lparr>m_upperAdj := U, m_lowerAdj := L\<rparr>))))))"

text \<open>
  The key that the comparer orders by: an entry is less than another exactly when its
  key is smaller in the lexicographic order.
\<close>

definition adj_key :: "heap \<Rightarrow> Adjacency \<Rightarrow> nat \<times> nat \<times> nat" where
  "adj_key h a =
     (m_u a, if isCompound h (m_v a) then 0 else 1,
      if isCompound h (m_v a) then originalCluster_index h (m_v a) else getNode_index h (m_v a))"

text \<open>
  On one layer, two different tree nodes differ in kind or in index: there is one
  compound node for a cluster and one leaf for a vertex. For the entries of a list:
\<close>

definition unique_targets :: "heap \<Rightarrow> Adjacency list \<Rightarrow> bool" where
  "unique_targets h adjs =
     (\<forall>a \<in> set adjs. \<forall>b \<in> set adjs. adj_key h a = adj_key h b \<longrightarrow> m_v a = m_v b)"

definition pair_of :: "Adjacency \<Rightarrow> node \<times> addr" where
  "pair_of a = (m_u a, m_v a)"

text \<open>\<open>r\<close> is \<open>h\<close> with other adjacency lists.\<close>

definition same_shape :: "heap \<Rightarrow> heap \<Rightarrow> bool" where
  "same_shape h r =
     (\<forall>a. case h a of
            None \<Rightarrow> r a = None
          | Some nd \<Rightarrow> \<exists>U L. r a = Some (nd\<lparr>m_upperAdj := U, m_lowerAdj := L\<rparr>))"

text \<open>\<open>r\<close> is \<open>h\<close> after the lists of some of its nodes have been simplified; every
  list of the store meets \<open>unique_targets\<close>; the sort sorts by the comparer of every
  store.\<close>

definition simp_upd ::
  "((Adjacency \<Rightarrow> Adjacency \<Rightarrow> int) \<Rightarrow> Adjacency list \<Rightarrow> Adjacency list) \<Rightarrow> heap \<Rightarrow> heap \<Rightarrow> bool" where
  "simp_upd qs h r =
     (\<forall>p. case h p of
            None \<Rightarrow> r p = None
          | Some nd \<Rightarrow>
              r p = Some nd
              \<or> (\<exists>U L. simplifyAdjacencies qs h (m_upperAdj nd) = Some U
                    \<and> simplifyAdjacencies qs h (m_lowerAdj nd) = Some L
                    \<and> r p = Some (nd\<lparr>m_upperAdj := U, m_lowerAdj := L\<rparr>)))"

definition unique_heap :: "heap \<Rightarrow> bool" where
  "unique_heap h =
     (\<forall>p nd. h p = Some nd \<longrightarrow>
        unique_targets h (m_upperAdj nd) \<and> unique_targets h (m_lowerAdj nd))"

definition sorter ::
  "((Adjacency \<Rightarrow> Adjacency \<Rightarrow> int) \<Rightarrow> Adjacency list \<Rightarrow> Adjacency list) \<Rightarrow> bool" where
  "sorter qs = (\<forall>h. sorts_by (AdjacencyComparer_compare h) (qs (AdjacencyComparer_compare h)))"

text \<open>A compound node over two leaves, with four entries in its upper list, before
  and after the simplification.\<close>

definition ex_adj :: "node \<Rightarrow> addr \<Rightarrow> int \<Rightarrow> Adjacency" where
  "ex_adj u v w = \<lparr>m_u = u, m_v = v, m_weight = w\<rparr>"

definition ex_adj_heap :: heap where
  "ex_adj_heap =
     [0 \<mapsto> (ex_compound 0 [1, 2])
              \<lparr>m_upperAdj := [ex_adj 5 2 1, ex_adj 5 1 1, ex_adj 5 2 1, ex_adj 4 1 1]\<rparr>,
      1 \<mapsto> ex_leaf Node 10, 2 \<mapsto> ex_leaf Node 11]"

definition ex_adj_heap' :: heap where
  "ex_adj_heap' =
     [0 \<mapsto> (ex_compound 0 [1, 2])
              \<lparr>m_upperAdj := [ex_adj 4 1 1, ex_adj 5 1 1, ex_adj 5 2 2]\<rparr>,
      1 \<mapsto> ex_leaf Node 10, 2 \<mapsto> ex_leaf Node 11]"

section \<open>Construction of the extended nesting graph\<close>

text \<open>
  The constructor \<open>ExtendedNestingGraph(CG)\<close> reads a clustered graph: its nodes and
  edges, the clusters in iteration order, the root cluster, the parent and the
  children of a cluster, the nodes directly contained in a cluster and the cluster of
  a node. The cluster-graph copy \<open>m_CGC\<close> and the node types only record membership
  and kind and influence none of the steps below, so they are not part of the state.

  The steps follow the constructor in order: node copies, a top and a bottom node per
  cluster, the containment edges of nodes and of clusters, the depth-first seeding of
  \<open>m_aeLevel\<close> by \<open>assignAeLevel\<close> (a recursion over the cluster tree, bounded here
  by the number of clusters), and one \<open>addEdge(..., true)\<close> per original edge whose
  result becomes the front of \<open>m_copyEdge[e]\<close>. A non-root cluster without parent and
  an \<open>addEdge\<close> that returns no edge would dereference a null pointer; both are
  \<open>None\<close>.
\<close>

record ClusterGraph = Graph +
  clusters :: "cluster list"
  rootCluster :: cluster
  parent :: "cluster \<Rightarrow> cluster option"
  children :: "cluster \<Rightarrow> cluster list"
  cnodes :: "cluster \<Rightarrow> node list"
  clusterOf :: "node \<Rightarrow> cluster"

definition empty_ENG :: ExtendedNestingGraph where
  "empty_ENG = \<lparr>nodes = [], nodeIdCount = 0, edges = [],
     m_copy = (\<lambda>v. 0), m_topNode = (\<lambda>c. 0), m_bottomNode = (\<lambda>c. 0),
     m_copyEdge = (\<lambda>e. []), m_origEdge = (\<lambda>e. None), m_origNode = (\<lambda>v. None),
     m_rank = (\<lambda>v. 0), m_aeLevel = (\<lambda>v. - 1), m_aeVisited = (\<lambda>v. False),
     m_auxDeg = (\<lambda>v. 0), m_mark = (\<lambda>c. None), m_markedClustersTree = [],
     m_secondPath = 0, m_secondPathTo = 0\<rparr>"

definition create_node_copies :: "ClusterGraph \<Rightarrow> ExtendedNestingGraph \<Rightarrow> ExtendedNestingGraph" where
  "create_node_copies CG =
     fold (\<lambda>v H. case newNode H of
                    (vH, H') \<Rightarrow> H'\<lparr>m_copy := (m_copy H')(v := vH),
                                   m_origNode := (m_origNode H')(vH \<mapsto> v)\<rparr>)
       (nodes CG)"

definition create_cluster_nodes :: "ClusterGraph \<Rightarrow> ExtendedNestingGraph \<Rightarrow> ExtendedNestingGraph" where
  "create_cluster_nodes CG =
     fold (\<lambda>c H. case newNode H of
                    (t, H1) \<Rightarrow>
                      (case newNode (H1\<lparr>m_topNode := (m_topNode H1)(c := t)\<rparr>) of
                         (b, H2) \<Rightarrow> H2\<lparr>m_bottomNode := (m_bottomNode H2)(c := b)\<rparr>))
       (clusters CG)"

definition node_containment_edges ::
  "ClusterGraph \<Rightarrow> ExtendedNestingGraph \<Rightarrow> ExtendedNestingGraph" where
  "node_containment_edges CG =
     fold (\<lambda>v H. snd (newEdge (m_copy H v) (m_bottomNode H (clusterOf CG v))
                        (snd (newEdge (m_topNode H (clusterOf CG v)) (m_copy H v) H))))
       (nodes CG)"

definition cluster_containment_edges ::
  "ClusterGraph \<Rightarrow> ExtendedNestingGraph \<Rightarrow> ExtendedNestingGraph option" where
  "cluster_containment_edges CG H =
     fold (\<lambda>c r. Option.bind r (\<lambda>H.
             if c \<noteq> rootCluster CG then
               (case parent CG c of
                  None \<Rightarrow> None
                | Some u \<Rightarrow>
                    Some (snd (newEdge (m_topNode H c) (m_bottomNode H c)
                          (snd (newEdge (m_bottomNode H c) (m_bottomNode H u)
                               (snd (newEdge (m_topNode H u) (m_topNode H c) H)))))))
             else Some H))
       (clusters CG) (Some H)"

fun assignAeLevel ::
  "nat \<Rightarrow> ClusterGraph \<Rightarrow> cluster \<Rightarrow> ExtendedNestingGraph \<times> int
     \<Rightarrow> (ExtendedNestingGraph \<times> int) option" where
  "assignAeLevel 0 CG c s = None"
| "assignAeLevel (Suc depth) CG c (H, cnt) =
     (case fold (\<lambda>child r. Option.bind r (assignAeLevel depth CG child)) (children CG c)
             (Some (fold (\<lambda>v (H, cnt). (H\<lparr>m_aeLevel := (m_aeLevel H)(m_copy H v := cnt)\<rparr>, cnt + 1))
                      (cnodes CG c)
                      (H\<lparr>m_aeLevel := (m_aeLevel H)(m_topNode H c := cnt)\<rparr>, cnt + 1))) of
        None \<Rightarrow> None
      | Some (H', cnt') \<Rightarrow>
          Some (H'\<lparr>m_aeLevel := (m_aeLevel H')(m_bottomNode H' c := cnt')\<rparr>, cnt' + 1))"

definition adjacency_edge ::
  "ClusterGraph \<Rightarrow> edge \<Rightarrow> ExtendedNestingGraph \<Rightarrow> ExtendedNestingGraph option" where
  "adjacency_edge CG e H =
     (case edges CG ! e of
        (s, t) \<Rightarrow>
          (case addEdge (m_copy H s) (m_copy H t) True H of
             (None, H') \<Rightarrow> None
           | (Some eH, H') \<Rightarrow>
               Some (H'\<lparr>m_copyEdge := (m_copyEdge H')(e := m_copyEdge H' e @ [eH]),
                        m_origEdge := (m_origEdge H')(eH \<mapsto> e)\<rparr>)))"

definition adjacency_edges :: "ClusterGraph \<Rightarrow> ExtendedNestingGraph \<Rightarrow> ExtendedNestingGraph option" where
  "adjacency_edges CG H =
     fold (\<lambda>e r. Option.bind r (adjacency_edge CG e)) [0..<length (edges CG)] (Some H)"

text \<open>
  Modelled from the spec: \<open>isAcyclic\<close> is declared in a header that is not among the
  source files. Section 3 has the graph acyclic at every checkpoint, that is without a
  directed cycle; the test looks, from the target of every edge, for its source. The
  constructor asserts it after the containment edges and after the cluster-order
  edges; a failing \<open>OGDF_ASSERT(isAcyclic(*this))\<close> is \<open>None\<close>.
\<close>

definition isAcyclic :: "(node \<times> node) list \<Rightarrow> bool" where
  "isAcyclic es = list_all (\<lambda>(s, t). \<not> fst (reachable es (\<lambda>v. False) t s)) es"

text \<open>
  \<open>seed\<close> is the constructor up to the seeding of \<open>m_aeLevel\<close>, \<open>prepare\<close> up to the
  end of the first loop over the original edges.
\<close>

definition seed :: "ClusterGraph \<Rightarrow> ExtendedNestingGraph option" where
  "seed CG =
     Option.bind
       (cluster_containment_edges CG
          (node_containment_edges CG (create_cluster_nodes CG (create_node_copies CG empty_ENG))))
       (\<lambda>H. if isAcyclic (edges H)
             then map_option fst (assignAeLevel (length (clusters CG)) CG (rootCluster CG) (H, 0))
             else None)"

definition prepare :: "ClusterGraph \<Rightarrow> ExtendedNestingGraph option" where
  "prepare CG = Option.bind (seed CG) (adjacency_edges CG)"

text \<open>
  \<open>lca(u, v)\<close> clears the marks left by the previous call and then climbs from the
  clusters of \<open>u\<close> and \<open>v\<close> in lock step, marking every visited cluster with the
  cluster the climb came from. \<open>climb\<close> is one of the two \<open>if(c != nullptr)\<close> blocks
  of the loop body: \<open>Inl\<close> is the \<open>return\<close>, \<open>Inr\<close> the state to continue with. The
  \<open>for( ; ; )\<close> loop has no exit but the two returns, so it is a partial function.
\<close>

definition climb ::
  "ClusterGraph \<Rightarrow> node \<Rightarrow> cluster option \<Rightarrow> cluster \<Rightarrow> ExtendedNestingGraph
     \<Rightarrow> (cluster \<times> ExtendedNestingGraph) + (cluster option \<times> cluster \<times> ExtendedNestingGraph)" where
  "climb CG w c pred H =
     (case c of
        None \<Rightarrow> Inr (None, pred, H)
      | Some a \<Rightarrow>
          if m_mark H a \<noteq> None
          then Inl (a, H\<lparr>m_secondPath := pred, m_secondPathTo := w\<rparr>)
          else Inr (parent CG a, a,
                    H\<lparr>m_mark := (m_mark H)(a \<mapsto> pred),
                      m_markedClustersTree := m_markedClustersTree H @ [a]\<rparr>))"

partial_function (option) lca_loop ::
  "ClusterGraph \<Rightarrow> node \<Rightarrow> node \<Rightarrow> cluster option \<Rightarrow> cluster \<Rightarrow> cluster option \<Rightarrow> cluster
     \<Rightarrow> ExtendedNestingGraph \<Rightarrow> (cluster \<times> ExtendedNestingGraph) option" where
  "lca_loop CG u v c1 pred1 c2 pred2 H =
     (case climb CG u c1 pred1 H of
        Inl found \<Rightarrow> Some found
      | Inr (c1', pred1', H1) \<Rightarrow>
          (case climb CG v c2 pred2 H1 of
             Inl found \<Rightarrow> Some found
           | Inr (c2', pred2', H2) \<Rightarrow> lca_loop CG u v c1' pred1' c2' pred2' H2))"

definition lca ::
  "ClusterGraph \<Rightarrow> node \<Rightarrow> node \<Rightarrow> ExtendedNestingGraph
     \<Rightarrow> (cluster \<times> ExtendedNestingGraph) option" where
  "lca CG u v H =
     lca_loop CG u v (Some (clusterOf CG u)) (clusterOf CG u)
       (Some (clusterOf CG v)) (clusterOf CG v)
       (H\<lparr>m_mark := fold (\<lambda>c m. m(c := None)) (m_markedClustersTree H) (m_mark H),
          m_markedClustersTree := []\<rparr>)"

text \<open>
  The second loop over the original edges. Modelled from the spec: its calls of
  \<open>addEdge\<close> leave out the third argument, whose default is declared in a header
  that is not among the source files; by section 4.2, step 5, it is \<open>false\<close>. Every
  such call is logged in \<open>attempted\<close>, in call order, next to the graph it acts on. \<open>cluster_order_edge\<close> is the loop body for one edge: \<open>swap(u, v)\<close>
  when the front of the chain does not start at the copy of the edge's source, the
  test on the clusters of \<open>u\<close> and \<open>v\<close>, \<open>lca\<close>, the two witnesses \<open>cFrom\<close> and
  \<open>cTo\<close> read off \<open>m_secondPath\<close>, \<open>m_secondPathTo\<close> and \<open>m_mark[c]\<close>, and the
  attempts.
\<close>

record ordering =
  eng :: ExtendedNestingGraph
  attempted :: "(node \<times> node) list"

definition attempt :: "node \<Rightarrow> node \<Rightarrow> ordering \<Rightarrow> edge option \<times> ordering" where
  "attempt u v s =
     (case addEdge u v False (eng s) of
        (eH, H') \<Rightarrow> (eH, \<lparr>eng = H', attempted = attempted s @ [(u, v)]\<rparr>))"

definition cluster_order_edge :: "ClusterGraph \<Rightarrow> edge \<Rightarrow> ordering \<Rightarrow> ordering option" where
  "cluster_order_edge CG e s =
     (case m_copyEdge (eng s) e of
        [] \<Rightarrow> None
      | front # chain \<Rightarrow>
          (case (if fst (edges (eng s) ! front) \<noteq> m_copy (eng s) (fst (edges CG ! e))
                 then (snd (edges CG ! e), fst (edges CG ! e)) else edges CG ! e) of
             (u, v) \<Rightarrow>
               if clusterOf CG u \<noteq> clusterOf CG v then
                 (case lca CG u v (eng s) of
                    None \<Rightarrow> None
                  | Some (c, H1) \<Rightarrow>
                      (case m_mark H1 c of
                         None \<Rightarrow> None
                       | Some marked \<Rightarrow>
                           (case (if m_secondPathTo H1 = v then (marked, m_secondPath H1)
                                  else (m_secondPath H1, marked)) of
                              (cFrom, cTo) \<Rightarrow>
                                (case (if cFrom \<noteq> c \<and> cTo \<noteq> c
                                       then attempt (m_bottomNode H1 cFrom) (m_topNode H1 cTo)
                                              (s\<lparr>eng := H1\<rparr>)
                                       else (None, s\<lparr>eng := H1\<rparr>)) of
                                   (eH, s1) \<Rightarrow>
                                     if eH = None
                                     then Some (snd (attempt (m_bottomNode H1 cFrom) (m_copy H1 v)
                                                  (snd (attempt (m_copy H1 u) (m_topNode H1 cTo) s1))))
                                     else Some s1))))
               else Some s))"

definition cluster_order_edges :: "ClusterGraph \<Rightarrow> ordering \<Rightarrow> ordering option" where
  "cluster_order_edges CG s =
     fold (\<lambda>e r. Option.bind r (cluster_order_edge CG e)) [0..<length (edges CG)] (Some s)"

text \<open>
  \<open>construct_edges\<close> is the constructor up to the end of the second loop, \<open>construct\<close>
  up to the assertion after it.
\<close>

definition construct_edges :: "ClusterGraph \<Rightarrow> ordering option" where
  "construct_edges CG =
     Option.bind (prepare CG) (\<lambda>H. cluster_order_edges CG \<lparr>eng = H, attempted = []\<rparr>)"

definition construct :: "ClusterGraph \<Rightarrow> ordering option" where
  "construct CG =
     Option.bind (construct_edges CG)
       (\<lambda>s. if isAcyclic (edges (eng s)) then Some s else None)"

text \<open>
  \<open>marks_only H H'\<close>: the two graphs differ at most in the fields that \<open>lca\<close> writes.
\<close>

definition marks_only :: "ExtendedNestingGraph \<Rightarrow> ExtendedNestingGraph \<Rightarrow> bool" where
  "marks_only H H' =
     (nodes H' = nodes H \<and> nodeIdCount H' = nodeIdCount H \<and> edges H' = edges H
      \<and> m_copy H' = m_copy H \<and> m_topNode H' = m_topNode H \<and> m_bottomNode H' = m_bottomNode H
      \<and> m_copyEdge H' = m_copyEdge H \<and> m_origEdge H' = m_origEdge H
      \<and> m_origNode H' = m_origNode H \<and> m_rank H' = m_rank H \<and> m_aeLevel H' = m_aeLevel H
      \<and> m_aeVisited H' = m_aeVisited H \<and> m_auxDeg H' = m_auxDeg H)"

text \<open>
  A clustered graph with two clusters \<open>1\<close> and \<open>2\<close> below the root \<open>0\<close>, node \<open>0\<close>
  in cluster \<open>1\<close>, node \<open>1\<close> in cluster \<open>2\<close> and the edge \<open>0 \<rightarrow> 1\<close>; and the state
  of the constructor on it when the second loop starts.
\<close>

definition ex_clustered :: ClusterGraph where
  "ex_clustered = \<lparr>nodes = [0, 1], nodeIdCount = 2, edges = [(0, 1)],
     clusters = [0, 1, 2], rootCluster = 0,
     parent = (\<lambda>c. if c = 0 then None else Some 0),
     children = (\<lambda>c. if c = 0 then [1, 2] else []),
     cnodes = (\<lambda>c. if c = 1 then [0] else if c = 2 then [1] else []),
     clusterOf = (\<lambda>v. if v = 0 then 1 else 2)\<rparr>"


text \<open>
  A graph with one node in the root cluster and the self-loop \<open>0 \<rightarrow> 0\<close>.
\<close>

definition ex_selfloop :: ClusterGraph where
  "ex_selfloop = \<lparr>nodes = [0], nodeIdCount = 1, edges = [(0, 0)],
     clusters = [0], rootCluster = 0, parent = (\<lambda>c. if c = 0 then None else Some 0),
     children = (\<lambda>c. []), cnodes = (\<lambda>c. if c = 0 then [0] else []),
     clusterOf = (\<lambda>v. 0)\<rparr>"

section \<open>Dummy nodes along long edges\<close>

text \<open>
  Modelled from the spec: \<open>Graph::split\<close> belongs to the class \<open>Graph\<close>, whose source
  is not among the source files. Section 4.4, step 1, has a long edge split into a
  chain by new vertices: \<open>split(e)\<close> on \<open>e = (a, b)\<close> creates a node \<open>w\<close>, makes
  \<open>e\<close> the edge \<open>(a, w)\<close> and returns the new edge \<open>(w, b)\<close>. The loops of
  \<open>createDummyNodes\<close> read the new node as the source of the returned edge.
\<close>

definition Graph_split :: "edge \<Rightarrow> 'a Graph_scheme \<Rightarrow> edge \<times> 'a Graph_scheme" where
  "Graph_split e G =
     (case edges G ! e of
        (a, b) \<Rightarrow>
          (case newNode G of
             (w, G1) \<Rightarrow> newEdge w b (G1\<lparr>edges := (edges G1)[e := (a, w)]\<rparr>)))"

text \<open>
  The loop \<open>for(int i = m_rank[uH]+1; i < m_rank[vH]; ++i)\<close> of
  \<open>createDummyNodes\<close> for the original edge \<open>e\<close>: the edge \<open>eH\<close> is split, the new
  edge is appended to \<open>m_copyEdge[e]\<close> and gets \<open>e\<close> as its original edge, and the new
  node gets rank \<open>i\<close>. The cluster of a dummy node is kept in the cluster-graph copy
  \<open>m_CGC\<close>, which is not part of the state.
\<close>

function split_edge ::
  "edge \<Rightarrow> node \<Rightarrow> int \<Rightarrow> edge \<Rightarrow> ExtendedNestingGraph \<Rightarrow> ExtendedNestingGraph" where
  "split_edge e vH i eH H =
     (if i < m_rank H vH then
        (case Graph_split eH H of
           (eH', H1) \<Rightarrow>
             split_edge e vH (i + 1) eH'
               (H1\<lparr>m_copyEdge := (m_copyEdge H1)(e := m_copyEdge H1 e @ [eH']),
                   m_origEdge := (m_origEdge H1)(eH' \<mapsto> e),
                   m_rank := (m_rank H1)(fst (edges H1 ! eH') := i)\<rparr>))
      else H)"
  by pat_completeness auto
termination
  apply (relation "measure (\<lambda>(e, vH, i, eH, H). nat (m_rank H vH - i))")
   apply simp
  apply (auto simp: Graph_split_def newNode_def newEdge_def split: prod.splits)
  done

text \<open>
  The body of the first loop of \<open>createDummyNodes\<close> for one original edge. A failing
  \<open>OGDF_ASSERT(span >= 1)\<close> is \<open>None\<close>, as is a null original node handed to
  \<open>lca\<close>. The part after the split loop that improves the cluster assignment reads
  ranks, chains and the cluster tree and writes only \<open>m_CGC\<close>; it is left out with
  \<open>m_CGC\<close>.
\<close>

definition dummies_for_edge ::
  "ClusterGraph \<Rightarrow> edge \<Rightarrow> ExtendedNestingGraph \<Rightarrow> ExtendedNestingGraph option" where
  "dummies_for_edge CG e H =
     (case m_copyEdge H e of
        [] \<Rightarrow> None
      | eH # chain \<Rightarrow>
          (case edges H ! eH of
             (uH, vH) \<Rightarrow>
               if m_rank H vH - m_rank H uH < 1 then None
               else if m_rank H vH - m_rank H uH < 2 then Some H
               else
                 (case (m_origNode H uH, m_origNode H vH) of
                    (Some u, Some v) \<Rightarrow>
                      (case lca CG u v H of
                         None \<Rightarrow> None
                       | Some (cTop, H1) \<Rightarrow> Some (split_edge e vH (m_rank H1 uH + 1) eH H1))
                  | _ \<Rightarrow> None)))"

text \<open>
  The second loop of \<open>createDummyNodes\<close>: for every cluster but the root, the first
  edge at \<open>top(c)\<close> that leads to \<open>bottom(c)\<close> and spans two layers or more is split
  once per intermediate rank, and the scan of the edges at \<open>top(c)\<close> ends there.
  \<open>adjEdgeIds\<close> are the indices of the edges at a node, in creation order.
\<close>

function split_cluster_edge ::
  "node \<Rightarrow> int \<Rightarrow> edge \<Rightarrow> ExtendedNestingGraph \<Rightarrow> ExtendedNestingGraph" where
  "split_cluster_edge vBottom i eH H =
     (if i < m_rank H vBottom then
        (case Graph_split eH H of
           (eH', H1) \<Rightarrow>
             split_cluster_edge vBottom (i + 1) eH'
               (H1\<lparr>m_rank := (m_rank H1)(fst (edges H1 ! eH') := i)\<rparr>))
      else H)"
  by pat_completeness auto
termination
  apply (relation "measure (\<lambda>(vBottom, i, eH, H). nat (m_rank H vBottom - i))")
   apply simp
  apply (auto simp: Graph_split_def newNode_def newEdge_def split: prod.splits)
  done

definition adjEdgeIds :: "(node \<times> node) list \<Rightarrow> node \<Rightarrow> edge list" where
  "adjEdgeIds es w = filter (\<lambda>k. fst (es ! k) = w \<or> snd (es ! k) = w) [0..<length es]"

fun dummies_for_cluster_scan ::
  "node \<Rightarrow> node \<Rightarrow> edge list \<Rightarrow> ExtendedNestingGraph \<Rightarrow> ExtendedNestingGraph option" where
  "dummies_for_cluster_scan vTop vBottom [] H = Some H"
| "dummies_for_cluster_scan vTop vBottom (e # adj) H =
     (if snd (edges H ! e) = vBottom then
        if m_rank H vBottom - m_rank H vTop < 1 then None
        else if m_rank H vBottom - m_rank H vTop < 2
        then dummies_for_cluster_scan vTop vBottom adj H
        else Some (split_cluster_edge vBottom (m_rank H vTop + 1) e H)
      else dummies_for_cluster_scan vTop vBottom adj H)"

definition dummies_for_cluster ::
  "ClusterGraph \<Rightarrow> cluster \<Rightarrow> ExtendedNestingGraph \<Rightarrow> ExtendedNestingGraph option" where
  "dummies_for_cluster CG c H =
     (if c = rootCluster CG then Some H
      else dummies_for_cluster_scan (m_topNode H c) (m_bottomNode H c)
             (adjEdgeIds (edges H) (m_topNode H c)) H)"

definition createDummyNodes ::
  "ClusterGraph \<Rightarrow> ExtendedNestingGraph \<Rightarrow> ExtendedNestingGraph option" where
  "createDummyNodes CG H =
     fold (\<lambda>c r. Option.bind r (dummies_for_cluster CG c)) (clusters CG)
       (fold (\<lambda>e r. Option.bind r (dummies_for_edge CG e)) [0..<length (edges CG)] (Some H))"

text \<open>
  The clusters form a tree when the root is the only cluster without parent and a
  depth decreases from every cluster to its parent. \<open>dep\<close> extends the depth to the
  cluster pointers of \<open>lca\<close>, a null pointer lying above the root.
\<close>

definition cluster_tree :: "ClusterGraph \<Rightarrow> (cluster \<Rightarrow> nat) \<Rightarrow> bool" where
  "cluster_tree CG depth =
     (\<forall>c. (parent CG c = None \<longleftrightarrow> c = rootCluster CG)
        \<and> (\<forall>p. parent CG c = Some p \<longrightarrow> depth p < depth c))"

fun dep :: "(cluster \<Rightarrow> nat) \<Rightarrow> cluster option \<Rightarrow> nat" where
  "dep depth None = 0"
| "dep depth (Some c) = Suc (depth c)"

text \<open>
  \<open>unit_path es rank ks a b\<close>: the edges with indices \<open>ks\<close> form a directed path
  from \<open>a\<close> to \<open>b\<close> in \<open>es\<close>, and the rank grows by exactly one along each of
  them. \<open>reversed\<close> is the constructor's test \<open>e was reversed?\<close>, the source of the
  front of the chain not being the copy of the source of \<open>e\<close>.
\<close>

fun unit_path ::
  "(node \<times> node) list \<Rightarrow> (node \<Rightarrow> int) \<Rightarrow> edge list \<Rightarrow> node \<Rightarrow> node \<Rightarrow> bool" where
  "unit_path es rank [] a b = (a = b)"
| "unit_path es rank (k # ks) a b =
     (k < length es \<and> fst (es ! k) = a \<and> rank (snd (es ! k)) = rank a + 1
      \<and> unit_path es rank ks (snd (es ! k)) b)"

definition reversed :: "ClusterGraph \<Rightarrow> ExtendedNestingGraph \<Rightarrow> edge \<Rightarrow> bool" where
  "reversed CG H e =
     (fst (edges H ! hd (m_copyEdge H e)) \<noteq> m_copy H (fst (edges CG ! e)))"

text \<open>
  The state in which \<open>createDummyNodes\<close> is called. The ranks come from the external
  ranker and the compaction of the layers; \<open>ranked\<close> collects what the constructor
  and the ranking stage have established by then: node indices are below the counter
  of the graph; every original edge has a chain of one edge, its own, between the
  copies of its end points in one of the two directions, going to a larger rank; and
  the top and bottom node of every cluster but the root are nodes of the graph, are
  no copies of original nodes, and the bottom node has the larger rank. Edges that
  the ranking stage has deleted keep their slot in \<open>edges\<close>: \<open>createDummyNodes\<close>
  reaches an edge only through \<open>m_copyEdge\<close> or as an edge from a top node to its
  bottom node, and those are never deleted.
\<close>

definition wellformed :: "ExtendedNestingGraph \<Rightarrow> bool" where
  "wellformed H = (\<forall>(s, t) \<in> set (edges H). s < nodeIdCount H \<and> t < nodeIdCount H)"

definition ranked :: "ClusterGraph \<Rightarrow> ExtendedNestingGraph \<Rightarrow> bool" where
  "ranked CG H =
     (wellformed H
      \<and> distinct (map (\<lambda>e. hd (m_copyEdge H e)) [0..<length (edges CG)])
      \<and> (\<forall>e < length (edges CG).
            \<exists>k. m_copyEdge H e = [k] \<and> k < length (edges H)
               \<and> (edges H ! k = (m_copy H (fst (edges CG ! e)), m_copy H (snd (edges CG ! e)))
                  \<or> edges H ! k = (m_copy H (snd (edges CG ! e)), m_copy H (fst (edges CG ! e))))
               \<and> m_rank H (fst (edges H ! k)) < m_rank H (snd (edges H ! k))
               \<and> m_origNode H (fst (edges H ! k)) \<noteq> None
               \<and> m_origNode H (snd (edges H ! k)) \<noteq> None)
      \<and> (\<forall>c \<in> set (clusters CG). c \<noteq> rootCluster CG \<longrightarrow>
            m_topNode H c < nodeIdCount H \<and> m_bottomNode H c < nodeIdCount H
            \<and> m_origNode H (m_topNode H c) = None
            \<and> m_rank H (m_topNode H c) < m_rank H (m_bottomNode H c)))"

text \<open>
  The invariants of the two loops. \<open>grows K H H'\<close>: from \<open>H\<close> to \<open>H'\<close> nodes and
  edges were only added, the old edges outside \<open>K\<close> kept their end points and the
  old nodes their ranks. \<open>chains_inv n j F UV T H\<close>: the chains of the original edges
  below \<open>j\<close> are unit paths, the others are still the single front edge \<open>F e\<close> with
  end points \<open>UV e\<close>; the chains are pairwise disjoint and touch no node of \<open>T\<close>, the
  top nodes. \<open>spans_inv\<close>: every top node is in \<open>T\<close> and ranked above its bottom node.
\<close>

definition grows :: "edge set \<Rightarrow> ExtendedNestingGraph \<Rightarrow> ExtendedNestingGraph \<Rightarrow> bool" where
  "grows K H H' =
     (length (edges H) \<le> length (edges H') \<and> nodeIdCount H \<le> nodeIdCount H'
      \<and> (\<forall>k < length (edges H). k \<notin> K \<longrightarrow> edges H' ! k = edges H ! k)
      \<and> (\<forall>x < nodeIdCount H. m_rank H' x = m_rank H x)
      \<and> wellformed H'
      \<and> m_topNode H' = m_topNode H \<and> m_bottomNode H' = m_bottomNode H
      \<and> m_origNode H' = m_origNode H \<and> m_copy H' = m_copy H)"

definition chains_inv ::
  "nat \<Rightarrow> nat \<Rightarrow> (edge \<Rightarrow> edge) \<Rightarrow> (edge \<Rightarrow> node \<times> node) \<Rightarrow> node set
     \<Rightarrow> ExtendedNestingGraph \<Rightarrow> bool" where
  "chains_inv n j F UV T H =
     (wellformed H \<and> (\<forall>t \<in> T. t < nodeIdCount H)
      \<and> (\<forall>e < n. e < j \<longrightarrow>
            unit_path (edges H) (m_rank H) (m_copyEdge H e) (fst (UV e)) (snd (UV e)))
      \<and> (\<forall>e < n. j \<le> e \<longrightarrow>
            m_copyEdge H e = [F e] \<and> F e < length (edges H) \<and> edges H ! F e = UV e
            \<and> m_rank H (fst (UV e)) < m_rank H (snd (UV e))
            \<and> m_origNode H (fst (UV e)) \<noteq> None \<and> m_origNode H (snd (UV e)) \<noteq> None)
      \<and> (\<forall>e < n. \<forall>e' < n. e \<noteq> e' \<longrightarrow> set (m_copyEdge H e) \<inter> set (m_copyEdge H e') = {})
      \<and> (\<forall>e < n. \<forall>k \<in> set (m_copyEdge H e).
            k < length (edges H) \<and> fst (edges H ! k) \<notin> T \<and> snd (edges H ! k) \<notin> T))"

definition spans_inv :: "ClusterGraph \<Rightarrow> node set \<Rightarrow> ExtendedNestingGraph \<Rightarrow> bool" where
  "spans_inv CG T H =
     (\<forall>c \<in> set (clusters CG). c \<noteq> rootCluster CG \<longrightarrow>
        m_topNode H c \<in> T \<and> m_bottomNode H c < nodeIdCount H
        \<and> m_rank H (m_topNode H c) < m_rank H (m_bottomNode H c))"

text \<open>
  Two states after the ranking stage. \<open>ex_ranked\<close> is the graph the constructor
  builds for \<open>ex_clustered\<close>, the two clusters stacked by the edge from the bottom
  of cluster \<open>1\<close> to the top of cluster \<open>2\<close>, with the layers \<open>0\<close> to \<open>5\<close> for
  top, node and bottom of cluster \<open>1\<close> and of cluster \<open>2\<close>. \<open>ex_cyclic\<close> has the
  two edges \<open>0 \<rightarrow> 1\<close> and \<open>1 \<rightarrow> 0\<close> in the root cluster; the constructor reverses the
  second, and the nodes are ranked \<open>0\<close> and \<open>1\<close>.
\<close>

definition ex_ranked :: ExtendedNestingGraph where
  "ex_ranked =
     (case construct ex_clustered of
        Some s \<Rightarrow> (eng s)\<lparr>m_rank := (\<lambda>v. 0)(4 := 0, 0 := 1, 5 := 2, 6 := 3, 1 := 4, 7 := 5)\<rparr>
      | None \<Rightarrow> empty_ENG)"

definition ex_cyclic :: ClusterGraph where
  "ex_cyclic = \<lparr>nodes = [0, 1], nodeIdCount = 2, edges = [(0, 1), (1, 0)],
     clusters = [0], rootCluster = 0, parent = (\<lambda>c. if c = 0 then None else Some 0),
     children = (\<lambda>c. []), cnodes = (\<lambda>c. if c = 0 then [0, 1] else []),
     clusterOf = (\<lambda>v. 0)\<rparr>"

definition ex_cyclic_ranked :: ExtendedNestingGraph where
  "ex_cyclic_ranked =
     (case construct ex_cyclic of
        Some s \<Rightarrow> (eng s)\<lparr>m_rank := (\<lambda>v. 0)(1 := 1)\<rparr>
      | None \<Rightarrow> empty_ENG)"

section \<open>Verified properties\<close>

subsection \<open>Removal of auxiliary children\<close>

lemma removeAux_loop_correct:
  "j \<le> i \<Longrightarrow> i \<le> length child \<Longrightarrow> distinct (drop i child) \<Longrightarrow>
   set (drop i child) \<subseteq> dom h \<Longrightarrow>
   \<exists>child'. removeAux_loop h child i j =
       Some (\<lambda>a. if a \<in> set (drop i child) \<and> isAux h a then None else h a,
             child',
             j + length (filter (\<lambda>a. \<not> isAux h a) (drop i child)))
     \<and> length child' = length child
     \<and> take (j + length (filter (\<lambda>a. \<not> isAux h a) (drop i child))) child'
         = take j child @ filter (\<lambda>a. \<not> isAux h a) (drop i child)"
proof (induction h child i j rule: removeAux_loop.induct)
  case (1 h child i j)
  show ?case
  proof (cases "i < length child")
    case False
    then have "drop i child = []" by simp
    then show ?thesis
      by (subst removeAux_loop.simps) (simp add: False)
  next
    case True
    let ?x = "child ! i"
    have dr: "drop i child = ?x # drop (Suc i) child"
      using True by (simp add: Cons_nth_drop_Suc)
    from 1(6) dr obtain c where c: "h ?x = Some c" by auto
    have xnotin: "?x \<notin> set (drop (Suc i) child)"
      using 1(5) dr by simp
    show ?thesis
    proof (cases "m_type c = AuxNode")
      case False
      have nonaux: "\<not> isAux h ?x" using c False by (simp add: isAux_def)
      let ?child1 = "child[j := ?x]"
      have d1: "drop (Suc i) ?child1 = drop (Suc i) child"
        using 1(3) by simp
      have pre: "j + 1 \<le> i + 1" "i + 1 \<le> length ?child1"
        "distinct (drop (i + 1) ?child1)" "set (drop (i + 1) ?child1) \<subseteq> dom h"
        using 1(3) True 1(5) 1(6) dr d1 by auto
      have n: "m_type c \<noteq> AuxNode" using False .
      from 1(1)[OF True c n pre]
      obtain child' where
        r: "removeAux_loop h ?child1 (i + 1) (j + 1) =
              Some (\<lambda>a. if a \<in> set (drop (i + 1) ?child1) \<and> isAux h a then None else h a,
                    child',
                    j + 1 + length (filter (\<lambda>a. \<not> isAux h a) (drop (i + 1) ?child1)))"
        and l: "length child' = length ?child1"
        and t: "take (j + 1 + length (filter (\<lambda>a. \<not> isAux h a) (drop (i + 1) ?child1))) child'
                 = take (j + 1) ?child1 @ filter (\<lambda>a. \<not> isAux h a) (drop (i + 1) ?child1)"
        by blast
      have tk: "take (j + 1) ?child1 = take j child @ [?x]"
        using 1(3) True by (simp add: take_Suc_conv_app_nth)
      have heq: "(\<lambda>a. if a \<in> set (drop (i + 1) ?child1) \<and> isAux h a then None else h a)
               = (\<lambda>a. if a \<in> set (drop i child) \<and> isAux h a then None else h a)"
        using nonaux d1 dr by auto
      show ?thesis
        apply (subst removeAux_loop.simps)
        using True c False r l t tk heq nonaux d1 dr
        by (auto)
    next
      case aux: True
      have isaux: "isAux h ?x" using c aux by (simp add: isAux_def)
      let ?h1 = "h(?x := None)"
      have same: "\<And>a. a \<in> set (drop (Suc i) child) \<Longrightarrow> isAux ?h1 a = isAux h a"
        using xnotin by (auto simp: isAux_def)
      have pre: "j \<le> i + 1" "i + 1 \<le> length child"
        "distinct (drop (i + 1) child)" "set (drop (i + 1) child) \<subseteq> dom ?h1"
        using 1(3) True 1(5) 1(6) dr xnotin by auto
      have feq: "filter (\<lambda>a. \<not> isAux ?h1 a) (drop (Suc i) child)
               = filter (\<lambda>a. \<not> isAux h a) (drop (Suc i) child)"
        using same by (auto intro: filter_cong)
      have n: "\<not> m_type c \<noteq> AuxNode" using aux by simp
      from 1(2)[OF True c n pre]
      obtain child' where
        r: "removeAux_loop ?h1 child (i + 1) j =
              Some (\<lambda>a. if a \<in> set (drop (i + 1) child) \<and> isAux ?h1 a then None else ?h1 a,
                    child',
                    j + length (filter (\<lambda>a. \<not> isAux ?h1 a) (drop (i + 1) child)))"
        and l: "length child' = length child"
        and t: "take (j + length (filter (\<lambda>a. \<not> isAux ?h1 a) (drop (i + 1) child))) child'
                 = take j child @ filter (\<lambda>a. \<not> isAux ?h1 a) (drop (i + 1) child)"
        by blast
      have heq: "(\<lambda>a. if a \<in> set (drop (i + 1) child) \<and> isAux ?h1 a then None else ?h1 a)
               = (\<lambda>a. if a \<in> set (drop i child) \<and> isAux h a then None else h a)"
        using isaux dr same by (auto simp: fun_eq_iff)
      show ?thesis
        apply (subst removeAux_loop.simps)
        using True c aux r l t heq isaux dr feq
        by (auto)
    qed
  qed
qed


text \<open>
  Claim C10. For a compound node \<open>p\<close> whose children are live, pairwise distinct
  objects, \<open>removeAuxChildren\<close> returns, and afterwards the child array of \<open>p\<close> is
  exactly the list of the former children that are not of type \<open>AuxNode\<close>, in their
  former order; the number of children has dropped by the number of \<open>AuxNode\<close>
  children; those children are freed and no other object is touched.
\<close>

theorem removeAuxChildren_filter:
  assumes "h p = Some nd" and "m_type nd = Compound"
    and "set (m_child nd) \<subseteq> dom h" and "distinct (m_child nd)"
  shows "\<exists>h' nd'. removeAuxChildren p h = Some h' \<and> h' p = Some nd'
           \<and> m_child nd' = filter (\<lambda>a. \<not> isAux h a) (m_child nd)
           \<and> int (length (m_child nd'))
               = int (length (m_child nd)) - int (length (filter (isAux h) (m_child nd)))
           \<and> (\<forall>a. a \<noteq> p \<longrightarrow>
                 h' a = (if a \<in> set (m_child nd) \<and> isAux h a then None else h a))"
proof -
  let ?keep = "filter (\<lambda>a. \<not> isAux h a) (m_child nd)"
  from removeAux_loop_correct [of 0 0 "m_child nd" h] assms(3,4)
  obtain child' where
    r: "removeAux_loop h (m_child nd) 0 0 =
          Some (\<lambda>a. if a \<in> set (m_child nd) \<and> isAux h a then None else h a,
                child', length ?keep)"
    and l: "length child' = length (m_child nd)"
    and t: "take (length ?keep) child' = ?keep"
    by auto
  have len: "length (m_child nd) = length ?keep + length (filter (isAux h) (m_child nd))"
    using sum_length_filter_compl [of "isAux h" "m_child nd"] by simp
  show ?thesis
    using assms(1,2) r t len by (simp add: removeAuxChildren_def)
qed

theorem removeAuxChildren_filter_witness:
  "ex_heap 0 = Some (ex_compound 0 [1, 2, 3]) \<and> m_type (ex_compound 0 [1, 2, 3]) = Compound
   \<and> set (m_child (ex_compound 0 [1, 2, 3])) \<subseteq> dom ex_heap
   \<and> distinct (m_child (ex_compound 0 [1, 2, 3]))
   \<and> (\<exists>h'. removeAuxChildren 0 ex_heap = Some h'
         \<and> h' 0 = Some (ex_compound 0 [1, 3]) \<and> h' 2 = None \<and> h' 3 = ex_heap 3)"
proof -
  have a: "ex_heap 0 = Some (ex_compound 0 [1, 2, 3])"
    and b: "m_type (ex_compound 0 [1, 2, 3]) = Compound"
    and c: "set (m_child (ex_compound 0 [1, 2, 3])) \<subseteq> dom ex_heap"
    and d: "distinct (m_child (ex_compound 0 [1, 2, 3]))"
    by (simp_all add: ex_heap_def ex_compound_def)
  from removeAuxChildren_filter [OF a b c d]
  obtain h' nd' where r: "removeAuxChildren 0 ex_heap = Some h'" "h' 0 = Some nd'"
    "m_child nd' = filter (\<lambda>a. \<not> isAux ex_heap a) (m_child (ex_compound 0 [1, 2, 3]))"
    "\<forall>a. a \<noteq> 0 \<longrightarrow> h' a = (if a \<in> set (m_child (ex_compound 0 [1, 2, 3])) \<and> isAux ex_heap a
                                then None else ex_heap a)"
    by blast
  have "h' 0 = Some (ex_compound 0 [1, 3])"
    using r(1) by (auto simp: removeAuxChildren_def ex_heap_def ex_compound_def ex_leaf_def
        removeAux_loop.simps)
  moreover have "h' 2 = None" "h' 3 = ex_heap 3"
    using r(4) by (simp_all add: isAux_def ex_heap_def ex_compound_def ex_leaf_def)
  ultimately show ?thesis using a b c d r(1) by simp
qed

subsection \<open>Compaction of the layers\<close>

lemma fill_levels_Some:
  "\<forall>v \<in> set vs. low \<le> rank v \<and> rank v \<le> high \<Longrightarrow>
   fill_levels low high rank vs levels
     = Some (\<lambda>i. levels i @ filter (\<lambda>v. rank v = i) vs)"
  by (induction vs arbitrary: levels) (auto simp: fun_eq_iff)

lemma fold_assign:
  "fold (\<lambda>v r. r(v := c)) xs rank = (\<lambda>w. if w \<in> set xs then c else rank w)"
  by (induction xs arbitrary: rank) (auto simp: fun_eq_iff)

lemma nonempty_below_self [simp]: "nonempty_below levels i i = 0"
  by (simp add: nonempty_below_def)

lemma nonempty_below_nonneg: "0 \<le> nonempty_below levels i j"
  by (simp add: nonempty_below_def)

lemma nonempty_below_first:
  "i < j \<Longrightarrow> nonempty_below levels i j
     = (if levels i = [] then 0 else 1) + nonempty_below levels (i + 1) j"
  by (simp add: nonempty_below_def upto_rec1 [of i "j - 1"])

lemma nonempty_below_last:
  "i \<le> j \<Longrightarrow> nonempty_below levels i (j + 1)
     = nonempty_below levels i j + (if levels j = [] then 0 else 1)"
  by (simp add: nonempty_below_def upto_rec2 [of i j])

lemma nonempty_below_mono:
  "i \<le> j \<Longrightarrow> j \<le> j' \<Longrightarrow> nonempty_below levels i j \<le> nonempty_below levels i j'"
proof (induction "nat (j' - j)" arbitrary: j')
  case 0
  then show ?case by simp
next
  case (Suc n)
  then have "n = nat ((j' - 1) - j)" "j \<le> j' - 1" "i \<le> j' - 1" by auto
  with Suc(1)[of "j' - 1"] Suc(3) have "nonempty_below levels i j \<le> nonempty_below levels i (j' - 1)"
    by simp
  moreover have "nonempty_below levels i (j' - 1) \<le> nonempty_below levels i j'"
    using nonempty_below_last [of i "j' - 1" levels] \<open>i \<le> j' - 1\<close> by (simp split: if_splits)
  ultimately show ?case by simp
qed

lemma nonempty_below_strict:
  assumes "i \<le> j" "j < j'" "levels j \<noteq> []"
  shows "nonempty_below levels i j < nonempty_below levels i j'"
proof -
  have "nonempty_below levels i (j + 1) = nonempty_below levels i j + 1"
    using nonempty_below_last [of i j levels] assms by simp
  moreover have "nonempty_below levels i (j + 1) \<le> nonempty_below levels i j'"
    using nonempty_below_mono [of i "j + 1" j' levels] assms by simp
  ultimately show ?thesis by simp
qed

lemma nonempty_below_onto:
  "i \<le> j \<Longrightarrow> 0 \<le> k \<Longrightarrow> k < nonempty_below levels i j \<Longrightarrow>
   \<exists>m. i \<le> m \<and> m < j \<and> levels m \<noteq> [] \<and> nonempty_below levels i m = k"
proof (induction "nat (j - i)" arbitrary: j)
  case 0
  then show ?case by simp
next
  case (Suc n)
  then have le: "i \<le> j - 1" and n: "n = nat ((j - 1) - i)" by auto
  have last: "nonempty_below levels i j
      = nonempty_below levels i (j - 1) + (if levels (j - 1) = [] then 0 else 1)"
    using nonempty_below_last [of i "j - 1" levels] le by simp
  show ?case
  proof (cases "k < nonempty_below levels i (j - 1)")
    case True
    from Suc(1)[OF n le Suc(4) True] show ?thesis by force
  next
    case False
    with last Suc(5) have "levels (j - 1) \<noteq> []" "nonempty_below levels i (j - 1) = k"
      by (auto split: if_splits)
    with le show ?thesis by (intro exI [of _ "j - 1"]) simp
  qed
qed

lemma reassign_loop_closed:
  assumes own: "\<forall>k. \<forall>v \<in> set (levels k). lvl v = k"
  shows "reassign_loop levels high i rank cur =
     (\<lambda>v. if i \<le> lvl v \<and> lvl v < high \<and> v \<in> set (levels (lvl v))
           then cur + nonempty_below levels i (lvl v) else rank v,
      cur + nonempty_below levels i (max i high))"
  using own
proof (induction levels high i rank cur rule: reassign_loop.induct)
  case (1 levels high i rank cur)
  note own = 1(3)
  show ?case
  proof (cases "i < high")
    case False
    then show ?thesis
      by (subst reassign_loop.simps) (auto simp: fun_eq_iff max_def)
  next
    case True
    show ?thesis
    proof (cases "levels i = []")
      case e: True
      have c: "\<And>j. i < j \<Longrightarrow> nonempty_below levels i j = nonempty_below levels (i + 1) j"
        using nonempty_below_first [of i _ levels] e by simp
      have "reassign_loop levels high i rank cur = reassign_loop levels high (i + 1) rank cur"
        by (subst reassign_loop.simps) (simp add: True e)
      also note 1(1)[OF True e own]
      finally show ?thesis
        using True e c by (auto simp: fun_eq_iff max_def dest: order_le_imp_less_or_eq)
    next
      case ne: False
      have c: "\<And>j. i < j \<Longrightarrow> nonempty_below levels i j = 1 + nonempty_below levels (i + 1) j"
        using nonempty_below_first [of i _ levels] ne by simp
      have "reassign_loop levels high i rank cur
          = reassign_loop levels high (i + 1)
              (fold (\<lambda>v r. r(v := cur)) (levels i) rank) (cur + 1)"
        by (subst reassign_loop.simps) (simp add: True ne)
      also note 1(2)[OF True ne own]
      also note fold_assign
      finally have r: "reassign_loop levels high i rank cur =
         (\<lambda>v. if i + 1 \<le> lvl v \<and> lvl v < high \<and> v \<in> set (levels (lvl v))
               then cur + 1 + nonempty_below levels (i + 1) (lvl v)
               else (if v \<in> set (levels i) then cur else rank v),
          cur + 1 + nonempty_below levels (i + 1) (max (i + 1) high))"
        .
      have "\<And>v. (if i + 1 \<le> lvl v \<and> lvl v < high \<and> v \<in> set (levels (lvl v))
               then cur + 1 + nonempty_below levels (i + 1) (lvl v)
               else (if v \<in> set (levels i) then cur else rank v))
          = (if i \<le> lvl v \<and> lvl v < high \<and> v \<in> set (levels (lvl v))
             then cur + nonempty_below levels i (lvl v) else rank v)"
      proof -
        fix v
        consider "lvl v = i" | "i < lvl v" | "lvl v < i" by linarith
        then show "?thesis v"
        proof cases
          case 1
          then show ?thesis using True own by auto
        next
          case 2
          then show ?thesis using c [of "lvl v"] own by auto
        next
          case 3
          then show ?thesis using own by auto
        qed
      qed
      moreover have "cur + 1 + nonempty_below levels (i + 1) (max (i + 1) high)
          = cur + nonempty_below levels i (max i high)"
        using True c [of high] by (simp add: max_def)
      ultimately show ?thesis using r by simp
    qed
  qed
qed


text \<open>
  Claim C5. When every remaining vertex has a rank strictly between the ranks of the
  top and the bottom vertex of the root cluster (which the ranker and the adjustment
  of the top and bottom ranks establish), the compaction returns, every remaining
  vertex gets a rank in \<open>0..numLayers-1\<close>, every layer index in that range holds at
  least one vertex, two vertices get the same new rank exactly when they had the same
  old rank, and the order of distinct old ranks is kept.
\<close>

theorem reassignRanks_compact:
  assumes inside: "\<forall>v \<in> set vs. low < rank v \<and> rank v < high"
  shows "\<exists>rank' numLayers. reassignRanks low high vs rank = Some (rank', numLayers)
     \<and> (\<forall>v \<in> set vs. 0 \<le> rank' v \<and> rank' v < numLayers)
     \<and> (\<forall>k. 0 \<le> k \<and> k < numLayers \<longrightarrow> (\<exists>v \<in> set vs. rank' v = k))
     \<and> (\<forall>v \<in> set vs. \<forall>w \<in> set vs.
           (rank' v = rank' w \<longleftrightarrow> rank v = rank w)
         \<and> (rank' v < rank' w \<longleftrightarrow> rank v < rank w))"
proof -
  define levels where "levels = (\<lambda>i. filter (\<lambda>v. rank v = i) vs)"
  define cnt where "cnt = nonempty_below levels (low + 1)"
  have "\<forall>v \<in> set vs. low \<le> rank v \<and> rank v \<le> high"
    using inside by force
  then have fill: "fill_levels low high rank vs (\<lambda>i. []) = Some levels"
    using fill_levels_Some [of vs low rank high "\<lambda>i. []"]
    by (simp add: levels_def)
  have own: "\<forall>k. \<forall>v \<in> set (levels k). rank v = k"
    by (simp add: levels_def)
  have mem: "\<And>v. v \<in> set vs \<Longrightarrow> v \<in> set (levels (rank v))"
    by (simp add: levels_def)
  obtain rank' numLayers where
    loop: "reassign_loop levels high (low + 1) rank 0 = (rank', numLayers)"
    by (cases "reassign_loop levels high (low + 1) rank 0")
  from loop reassign_loop_closed [OF own, of high "low + 1" rank 0]
  have r': "\<And>v. v \<in> set vs \<Longrightarrow> rank' v = cnt (rank v)"
    and nl: "numLayers = cnt (max (low + 1) high)"
    using inside mem by (auto simp: cnt_def)
  have strict: "\<And>v w. v \<in> set vs \<Longrightarrow> w \<in> set vs \<Longrightarrow> rank v < rank w
      \<Longrightarrow> rank' v < rank' w"
  proof -
    fix v w assume v: "v \<in> set vs" and w: "w \<in> set vs" and lt: "rank v < rank w"
    have "levels (rank v) \<noteq> []" using mem [OF v] by auto
    then have "cnt (rank v) < cnt (rank w)"
      unfolding cnt_def using inside v lt by (intro nonempty_below_strict) auto
    then show "rank' v < rank' w" using r' v w by simp
  qed
  have range: "\<forall>v \<in> set vs. 0 \<le> rank' v \<and> rank' v < numLayers"
  proof
    fix v assume v: "v \<in> set vs"
    have ne: "levels (rank v) \<noteq> []" using mem [OF v] by auto
    have "cnt (rank v) < cnt (max (low + 1) high)"
      unfolding cnt_def using inside v ne by (intro nonempty_below_strict) auto
    then show "0 \<le> rank' v \<and> rank' v < numLayers"
      using r' [OF v] nl nonempty_below_nonneg [of levels "low + 1" "rank v"]
      by (simp add: cnt_def)
  qed
  have onto: "\<forall>k. 0 \<le> k \<and> k < numLayers \<longrightarrow> (\<exists>v \<in> set vs. rank' v = k)"
  proof (intro allI impI)
    fix k assume k: "0 \<le> k \<and> k < numLayers"
    then have "k < nonempty_below levels (low + 1) (max (low + 1) high)"
      using nl by (simp add: cnt_def)
    from nonempty_below_onto [OF _ _ this] k
    obtain m where m: "levels m \<noteq> []" "nonempty_below levels (low + 1) m = k"
      by auto
    then obtain v where "v \<in> set (levels m)" by (cases "levels m") auto
    then have "v \<in> set vs" "rank v = m" by (auto simp: levels_def)
    with m r' [of v] show "\<exists>v \<in> set vs. rank' v = k"
      by (auto simp: cnt_def)
  qed
  have order: "\<forall>v \<in> set vs. \<forall>w \<in> set vs.
           (rank' v = rank' w \<longleftrightarrow> rank v = rank w)
         \<and> (rank' v < rank' w \<longleftrightarrow> rank v < rank w)"
  proof (intro ballI)
    fix v w assume v: "v \<in> set vs" and w: "w \<in> set vs"
    consider "rank v < rank w" | "rank v = rank w" | "rank w < rank v" by linarith
    then show "(rank' v = rank' w \<longleftrightarrow> rank v = rank w)
         \<and> (rank' v < rank' w \<longleftrightarrow> rank v < rank w)"
    proof cases
      case 1
      with strict [OF v w] show ?thesis by auto
    next
      case 2
      with r' [OF v] r' [OF w] show ?thesis by auto
    next
      case 3
      with strict [OF w v] show ?thesis by auto
    qed
  qed
  show ?thesis
    using fill loop range onto order by (simp add: reassignRanks_def)
qed


theorem reassignRanks_compact_witness:
  "list_all (\<lambda>v. 1 < ex_rank v \<and> ex_rank v < 9) [0, 1, 2, 3]
   \<and> (\<exists>rank' numLayers. reassignRanks 1 9 [0, 1, 2, 3] ex_rank = Some (rank', numLayers)
         \<and> map rank' [0, 1, 2, 3] = [0, 2, 0, 1] \<and> numLayers = 3)"
proof -
  have h: "\<forall>v \<in> set [0, 1, 2, 3]. 1 < ex_rank v \<and> ex_rank v < 9"
    by (simp add: ex_rank_def)
  from reassignRanks_compact [OF h]
  obtain rank' numLayers where
    r: "reassignRanks 1 9 [0, 1, 2, 3] ex_rank = Some (rank', numLayers)"
    by blast
  then have "map rank' [0, 1, 2, 3] = [0, 2, 0, 1] \<and> numLayers = 3"
    by (auto simp: reassignRanks_def ex_rank_def reassign_loop.simps)
  with r have "\<exists>rank' numLayers. reassignRanks 1 9 [0, 1, 2, 3] ex_rank = Some (rank', numLayers)
         \<and> map rank' [0, 1, 2, 3] = [0, 2, 0, 1] \<and> numLayers = 3"
    by (intro exI [of _ rank'] exI [of _ numLayers] conjI) simp_all
  moreover have "list_all (\<lambda>v. 1 < ex_rank v \<and> ex_rank v < 9) [0, 1, 2, 3]"
    by (simp add: ex_rank_def)
  ultimately show ?thesis by simp
qed

subsection \<open>Breadth-first reachability\<close>

lemma fold_reset:
  "fold (\<lambda>vi m. m(vi := False)) xs vis x = (vis x \<and> x \<notin> set xs)"
  by (induction xs arbitrary: vis) auto

lemma scan_adj_spec:
  "scan_adj u adj vis Q = (found, vis1, Q1) \<Longrightarrow>
   \<exists>new. Q1 = Q @ new \<and> distinct new \<and> (\<forall>x. vis1 x = (vis x \<or> x \<in> set new))
     \<and> (\<forall>t \<in> set new. \<not> vis t \<and> t \<noteq> u \<and> t \<in> snd ` set adj)
     \<and> (found \<longrightarrow> u \<in> snd ` set adj)
     \<and> (\<not> found \<longrightarrow> (\<forall>t \<in> snd ` set adj. t \<noteq> u \<and> vis1 t))"
proof (induction u adj vis Q rule: scan_adj.induct)
  case (1 u vis Q)
  then show ?case by simp
next
  case (2 u s t adj vis Q)
  show ?case
  proof (cases "t = u")
    case True
    with 2(3) show ?thesis by (intro exI [of _ "[]"]) auto
  next
    case False
    show ?thesis
    proof (cases "vis t")
      case True
      with 2(3) False have "scan_adj u adj vis Q = (found, vis1, Q1)" by simp
      from 2(2)[OF False _ this] True
      obtain new where n: "Q1 = Q @ new" "distinct new" "\<forall>x. vis1 x = (vis x \<or> x \<in> set new)"
        "\<forall>t \<in> set new. \<not> vis t \<and> t \<noteq> u \<and> t \<in> snd ` set adj"
        "found \<longrightarrow> u \<in> snd ` set adj"
        "\<not> found \<longrightarrow> (\<forall>t \<in> snd ` set adj. t \<noteq> u \<and> vis1 t)"
        by auto
      show ?thesis
        using n True False by (intro exI [of _ new]) auto
    next
      case nv: False
      with 2(3) False have "scan_adj u adj (vis(t := True)) (Q @ [t]) = (found, vis1, Q1)"
        by simp
      from 2(1)[OF False nv this]
      obtain new where n: "Q1 = (Q @ [t]) @ new" "distinct new"
        "\<forall>x. vis1 x = ((vis(t := True)) x \<or> x \<in> set new)"
        "\<forall>x \<in> set new. \<not> (vis(t := True)) x \<and> x \<noteq> u \<and> x \<in> snd ` set adj"
        "found \<longrightarrow> u \<in> snd ` set adj"
        "\<not> found \<longrightarrow> (\<forall>t \<in> snd ` set adj. t \<noteq> u \<and> vis1 t)"
        by auto
      have "t \<notin> set new" using n(4) by auto
      then show ?thesis
        using n nv False by (intro exI [of _ "t # new"]) (auto split: if_splits)
    qed
  qed
qed

lemma reach_loop_inv:
  assumes "reach_loop es u vis Q succs = (r, out, vis')"
    and "\<forall>x. vis x \<longleftrightarrow> x \<in> set Q \<union> set succs"
    and "distinct (succs @ Q)"
    and "\<forall>x \<in> set Q \<union> set succs. (v, x) \<in> (set es)\<^sup>*"
    and "\<forall>x \<in> set succs. \<forall>y. (x, y) \<in> set es \<longrightarrow> y \<in> set Q \<union> set succs"
    and "u \<notin> set Q \<union> set succs"
    and "v \<in> set Q \<union> set succs"
  shows "(\<forall>x. \<not> vis' x)
     \<and> (r \<longrightarrow> (v, u) \<in> (set es)\<^sup>+ \<and> out = [])
     \<and> (\<not> r \<longrightarrow> set out = (set es)\<^sup>* `` {v} \<and> distinct out \<and> u \<notin> set out)"
  using assms
proof (induction es u vis Q succs arbitrary: r out vis' rule: reach_loop.induct)
  case (1 es u vis succs)
  have closed: "\<And>x. (v, x) \<in> (set es)\<^sup>* \<Longrightarrow> x \<in> set succs"
  proof -
    fix x assume "(v, x) \<in> (set es)\<^sup>*"
    then show "x \<in> set succs"
      by (induction rule: rtrancl_induct) (use 1 in auto)
  qed
  have "set succs = (set es)\<^sup>* `` {v}"
    using closed 1(4) by auto
  then show ?case
    using 1 by (auto simp: fold_reset)
next
  case (2 es u vis w Q succs)
  obtain found vis1 Q1 where sc: "scan_adj u (adjEdges es w) vis Q = (found, vis1, Q1)"
    by (cases "scan_adj u (adjEdges es w) vis Q") auto
  from scan_adj_spec [OF sc]
  obtain new where n: "Q1 = Q @ new" "distinct new" "\<forall>x. vis1 x = (vis x \<or> x \<in> set new)"
    "\<forall>t \<in> set new. \<not> vis t \<and> t \<noteq> u \<and> t \<in> snd ` set (adjEdges es w)"
    "found \<longrightarrow> u \<in> snd ` set (adjEdges es w)"
    "\<not> found \<longrightarrow> (\<forall>t \<in> snd ` set (adjEdges es w). t \<noteq> u \<and> vis1 t)"
    by auto
  have visw: "vis w" and wu: "w \<noteq> u" and vw: "(v, w) \<in> (set es)\<^sup>*"
    using 2(3,5,7) by auto
  have adj: "\<And>t. t \<in> snd ` set (adjEdges es w) \<Longrightarrow> t \<noteq> w \<Longrightarrow> (w, t) \<in> set es"
    by (auto simp: adjEdges_def)
  have out_edges: "\<And>y. (w, y) \<in> set es \<Longrightarrow> y \<in> snd ` set (adjEdges es w)"
    by (force simp: adjEdges_def)
  show ?case
  proof (cases found)
    case True
    then have res: "r = True" "out = []"
      "vis' = fold (\<lambda>vi m. m(vi := False)) (Q1 @ succs @ [w]) vis1"
      using 2(2) sc by auto
    have "(w, u) \<in> set es" using n(5) True adj wu by auto
    with vw have "(v, u) \<in> (set es)\<^sup>+" by (rule rtrancl_into_trancl1)
    moreover have "\<forall>x. \<not> vis' x"
      using res(3) n(1,3) 2(3) by (auto simp: fold_reset)
    ultimately show ?thesis using res by simp
  next
    case False
    then have rec: "reach_loop es u vis1 Q1 (succs @ [w]) = (r, out, vis')"
      using 2(2) sc by simp
    have a: "\<forall>x. vis1 x \<longleftrightarrow> x \<in> set Q1 \<union> set (succs @ [w])"
      using n(1,3) 2(3) by auto
    have b: "distinct ((succs @ [w]) @ Q1)"
      using n(1,2,4) 2(3,4) by auto
    have c: "\<forall>x \<in> set Q1 \<union> set (succs @ [w]). (v, x) \<in> (set es)\<^sup>*"
    proof
      fix x assume x: "x \<in> set Q1 \<union> set (succs @ [w])"
      show "(v, x) \<in> (set es)\<^sup>*"
      proof (cases "x \<in> set new")
        case True
        then have "x \<noteq> w" "x \<in> snd ` set (adjEdges es w)" using n(4) visw by auto
        then have "(w, x) \<in> set es" using adj by simp
        with vw show ?thesis by (rule rtrancl_into_rtrancl)
      next
        case False
        with x n(1) 2(5) show ?thesis by auto
      qed
    qed
    have d: "\<forall>x \<in> set (succs @ [w]). \<forall>y. (x, y) \<in> set es \<longrightarrow> y \<in> set Q1 \<union> set (succs @ [w])"
    proof (intro ballI allI impI)
      fix x y assume x: "x \<in> set (succs @ [w])" and e: "(x, y) \<in> set es"
      show "y \<in> set Q1 \<union> set (succs @ [w])"
      proof (cases "x = w")
        case True
        with e have "y \<in> snd ` set (adjEdges es w)" using out_edges by simp
        with n(6) False have "vis1 y" by blast
        with a show ?thesis by simp
      next
        case False
        with x e 2(6) n(1) show ?thesis by auto
      qed
    qed
    have e: "u \<notin> set Q1 \<union> set (succs @ [w])"
      using n(1,4) 2(7) by auto
    have f: "v \<in> set Q1 \<union> set (succs @ [w])"
      using n(1) 2(8) by auto
    from 2(1)[OF sc [symmetric] refl False rec a b c d e f]
    show ?thesis .
  qed
qed

lemma reachable_correct:
  assumes "reachable es vis v u = (r, out, vis')" and "\<forall>x. \<not> vis x"
  shows "(\<forall>x. \<not> vis' x) \<and> (r \<longleftrightarrow> (v, u) \<in> (set es)\<^sup>*)
     \<and> (r \<longrightarrow> out = [])
     \<and> (\<not> r \<longrightarrow> set out = (set es)\<^sup>* `` {v} \<and> distinct out)"
proof (cases "u = v")
  case True
  with assms show ?thesis by (auto simp: reachable_def)
next
  case False
  with assms have l: "reach_loop es u (vis(v := True)) [v] [] = (r, out, vis')"
    by (simp add: reachable_def)
  have "(\<forall>x. \<not> vis' x)
     \<and> (r \<longrightarrow> (v, u) \<in> (set es)\<^sup>+ \<and> out = [])
     \<and> (\<not> r \<longrightarrow> set out = (set es)\<^sup>* `` {v} \<and> distinct out \<and> u \<notin> set out)"
    by (rule reach_loop_inv [OF l]) (use assms(2) False in auto)
  then show ?thesis by (auto dest: trancl_into_rtrancl)
qed


subsection \<open>Rejection by \<open>tryEdge\<close>\<close>

text \<open>
  Claim C9. If \<open>tryEdge(u, v, G, level)\<close> is called with both levels set,
  \<open>level[u] >= level[v]\<close> and \<open>u\<close> reachable from \<open>v\<close> in \<open>G\<close> (the visited flags
  being clear, as every caller leaves them), it returns false and the graph, the
  whole level array and the object are as they were before the call.
\<close>

theorem tryEdge_reject_atomic:
  assumes "level u \<noteq> - 1" and "level v \<noteq> - 1" and "level u \<ge> level v"
    and "(v, u) \<in> (set (edges G))\<^sup>*" and "\<forall>x. \<not> m_aeVisited H x"
  shows "tryEdge u v G level H = (False, G, level, H)"
proof -
  obtain r out vis' where re: "reachable (edges G) (m_aeVisited H) v u = (r, out, vis')"
    by (cases "reachable (edges G) (m_aeVisited H) v u") auto
  from reachable_correct [OF re assms(5)] assms(4)
  have r and "\<forall>x. \<not> vis' x" by auto
  then have "vis' = m_aeVisited H" using assms(5) by (auto simp: fun_eq_iff)
  then show ?thesis
    using assms(1-3) re \<open>r\<close> by (simp add: tryEdge_def)
qed

theorem tryEdge_reject_atomic_witness:
  "ex_Glevel 2 \<noteq> - 1 \<and> ex_Glevel 0 \<noteq> - 1 \<and> ex_Glevel 2 \<ge> ex_Glevel 0
   \<and> (0, 2) \<in> (set (edges ex_G))\<^sup>* \<and> (\<forall>x. \<not> m_aeVisited ex_H x)
   \<and> tryEdge 2 0 ex_G ex_Glevel ex_H = (False, ex_G, ex_Glevel, ex_H)"
proof -
  have a: "ex_Glevel 2 \<noteq> - 1" "ex_Glevel 0 \<noteq> - 1" "ex_Glevel 2 \<ge> ex_Glevel 0"
    by (simp_all add: ex_Glevel_def)
  have "(0, 1) \<in> set (edges ex_G)" "(1, 2) \<in> set (edges ex_G)"
    by (simp_all add: ex_G_def)
  then have b: "(0, 2) \<in> (set (edges ex_G))\<^sup>*"
    by (meson converse_rtrancl_into_rtrancl rtrancl.rtrancl_refl)
  have c: "\<forall>x. \<not> m_aeVisited ex_H x"
    by (simp add: ex_H_def ex_ENG_def)
  from tryEdge_reject_atomic [OF a b c] a b c show ?thesis by simp
qed

subsection \<open>The acyclicity-preserving edge adder\<close>

lemma fold_shift:
  "distinct xs \<Longrightarrow> fold (\<lambda>vi l. l(vi := l vi + d)) xs l x = (if x \<in> set xs then l x + d else l x)"
  by (induction xs arbitrary: l) auto

lemma topological_path:
  assumes "\<forall>(s, t) \<in> set es. (l s :: int) < l t" and "(x, y) \<in> (set es)\<^sup>+"
  shows "l x < l y"
  using assms(2)
proof (induction rule: trancl_induct)
  case (base y)
  with assms(1) show ?case by auto
next
  case (step y z)
  with assms(1) have "l y < l z" by auto
  with step show ?case by simp
qed

lemma addEdge_keeps_topological:
  assumes "topological H" and "\<forall>x. \<not> m_aeVisited H x" and "u \<noteq> v"
    and "addEdge u v addAlways H = (Some e, H')"
  shows "topological H' \<and> (\<forall>x. \<not> m_aeVisited H' x)
     \<and> (edges H' = edges H @ [(u, v)] \<or> edges H' = edges H @ [(v, u)])"
proof -
  have top: "\<forall>(s, t) \<in> set (edges H). m_aeLevel H s < m_aeLevel H t"
    using assms(1) by (simp add: topological_def)
  show ?thesis
  proof (cases "m_aeLevel H u < m_aeLevel H v")
    case True
    with assms(4) have "H' = H\<lparr>edges := edges H @ [(u, v)]\<rparr>"
      by (auto simp: addEdge_def newEdge_def)
    with True top assms(2) show ?thesis by (auto simp: topological_def)
  next
    case False
    obtain r out vis' where re: "reachable (edges H) (m_aeVisited H) v u = (r, out, vis')"
      by (cases "reachable (edges H) (m_aeVisited H) v u") auto
    from reachable_correct [OF re assms(2)]
    have clean: "\<forall>x. \<not> vis' x" and r: "r \<longleftrightarrow> (v, u) \<in> (set (edges H))\<^sup>*"
      and out: "\<not> r \<longrightarrow> set out = (set (edges H))\<^sup>* `` {v} \<and> distinct out"
      by auto
    show ?thesis
    proof (cases r)
      case True
      with assms(4) False re have aa: addAlways and
        H': "H' = H\<lparr>m_aeVisited := vis', edges := edges H @ [(v, u)]\<rparr>"
        by (auto simp: addEdge_def newEdge_def split: if_splits)
      from True r assms(3) have "(v, u) \<in> (set (edges H))\<^sup>+"
        by (auto simp: rtrancl_eq_or_trancl)
      from topological_path [OF top this] have "m_aeLevel H v < m_aeLevel H u" .
      with H' top clean show ?thesis by (auto simp: topological_def)
    next
      case nr: False
      define d where "d = m_aeLevel H u - m_aeLevel H v + 1"
      define l' where "l' = fold (\<lambda>vi l. l(vi := l vi + d)) out (m_aeLevel H)"
      from assms(4) False re nr have
        H': "H' = H\<lparr>m_aeVisited := vis', m_aeLevel := l', edges := edges H @ [(u, v)]\<rparr>"
        by (auto simp: addEdge_def newEdge_def Let_def d_def l'_def)
      have dpos: "0 < d" using False by (simp add: d_def)
      have S: "set out = (set (edges H))\<^sup>* `` {v}" and dist: "distinct out"
        using out nr by auto
      have l'v: "\<And>x. l' x = (if x \<in> set out then m_aeLevel H x + d else m_aeLevel H x)"
        unfolding l'_def by (rule fold_shift [OF dist])
      have un: "u \<notin> set out" using r nr S by auto
      have vin: "v \<in> set out" using S by auto
      have closed: "\<And>s t. (s, t) \<in> set (edges H) \<Longrightarrow> s \<in> set out \<Longrightarrow> t \<in> set out"
        unfolding S by (auto intro: rtrancl_into_rtrancl)
      have old: "\<forall>(s, t) \<in> set (edges H). l' s < l' t"
      proof (clarify)
        fix s t assume st: "(s, t) \<in> set (edges H)"
        then have "m_aeLevel H s < m_aeLevel H t" using top by auto
        then show "l' s < l' t"
          using closed [OF st] dpos by (auto simp: l'v)
      qed
      have new: "l' u < l' v"
        using un vin by (simp add: l'v d_def)
      show ?thesis
        using H' old new clean by (auto simp: topological_def)
    qed
  qed
qed

text \<open>
  The invariant of the edge adder for distinct nodes. When \<open>m_aeLevel\<close> is a
  topological labeling of the graph (as the depth-first seeding makes it for the
  containment edges) and the visited flags are clear, every call
  \<open>addEdge(u, v, addAlways)\<close> with \<open>u \<noteq> v\<close> that returns an edge leaves \<open>m_aeLevel\<close> a
  topological labeling: every edge goes from a strictly smaller to a strictly larger
  level, the graph is acyclic, and the visited flags are clear again for the next
  call. The edge added is \<open>u \<rightarrow> v\<close> or its reversal.
\<close>

theorem addEdge_topological:
  assumes "topological H" and "\<forall>x. \<not> m_aeVisited H x" and "u \<noteq> v"
    and "addEdge u v addAlways H = (Some e, H')"
  shows "topological H' \<and> acyclic (set (edges H')) \<and> (\<forall>x. \<not> m_aeVisited H' x)
     \<and> (edges H' = edges H @ [(u, v)] \<or> edges H' = edges H @ [(v, u)])"
proof -
  from assms have keep: "topological H' \<and> (\<forall>x. \<not> m_aeVisited H' x)
     \<and> (edges H' = edges H @ [(u, v)] \<or> edges H' = edges H @ [(v, u)])"
    by (rule addEdge_keeps_topological)
  then have "\<forall>(s, t) \<in> set (edges H'). m_aeLevel H' s < m_aeLevel H' t"
    by (simp add: topological_def)
  from topological_path [OF this] have "acyclic (set (edges H'))"
    by (fastforce simp: acyclic_def)
  with keep show ?thesis by simp
qed

lemma ex_H_addEdge:
  "addEdge 1 0 False ex_H
     = (Some 4, ex_H\<lparr>edges := [(2, 0), (0, 3), (2, 1), (1, 3), (1, 0)],
                     m_aeLevel := (ex_level(0 := 3))(3 := 5)\<rparr>)"
  by (simp add: addEdge_def ex_H_def ex_ENG_def ex_level_def reachable_def adjEdges_def
      newEdge_def fun_eq_iff)

theorem addEdge_topological_witness:
  "topological ex_H \<and> (\<forall>x. \<not> m_aeVisited ex_H x) \<and> (1::node) \<noteq> 0
   \<and> fst (addEdge 1 0 False ex_H) = Some 4
   \<and> topological (snd (addEdge 1 0 False ex_H))
   \<and> acyclic (set (edges (snd (addEdge 1 0 False ex_H))))"
proof -
  have a: "topological ex_H"
    by (simp add: topological_def ex_H_def ex_ENG_def ex_level_def)
  have b: "\<forall>x. \<not> m_aeVisited ex_H x"
    by (simp add: ex_H_def ex_ENG_def)
  have c: "(1::node) \<noteq> 0" by simp
  from addEdge_topological [OF a b c ex_H_addEdge] a b c show ?thesis
    unfolding ex_H_addEdge fst_conv snd_conv by blast
qed

text \<open>
  For a self-loop the invariant is lost: \<open>addEdge(u, u, true)\<close> finds \<open>u\<close> reachable
  from itself and, since the edge has to be added, adds \<open>u \<rightarrow> u\<close>; reversing the edge
  does not help here. The returned edge is not null, and no labeling is topological
  for it.
\<close>

lemma addEdge_selfloop:
  "topological ex_H \<and> fst (addEdge 0 0 True ex_H) = Some 4
   \<and> \<not> topological (snd (addEdge 0 0 True ex_H))
   \<and> \<not> acyclic (set (edges (snd (addEdge 0 0 True ex_H))))"
proof -
  have a: "topological ex_H"
    by (simp add: topological_def ex_H_def ex_ENG_def ex_level_def)
  have e: "addEdge 0 0 True ex_H
     = (Some 4, ex_H\<lparr>edges := [(2, 0), (0, 3), (2, 1), (1, 3), (0, 0)]\<rparr>)"
    by (simp add: addEdge_def ex_H_def ex_ENG_def ex_level_def reachable_def newEdge_def)
  have "\<not> acyclic (set [(2, 0), (0, 3), (2, 1), (1, 3), (0::node, 0::node)])"
    by (auto simp: acyclic_def intro: exI [of _ 0])
  with a e show ?thesis
    by (simp add: topological_def ex_H_def ex_ENG_def)
qed

subsection \<open>The orchestrator\<close>

lemma rc_less_trans: "rc_less a b \<Longrightarrow> rc_less b c \<Longrightarrow> rc_less a c"
  by (auto simp: rc_less_def split: if_splits)

lemma sorted_wrt_last:
  "sorted_wrt P xs \<Longrightarrow> x \<in> set xs \<Longrightarrow> x = last xs \<or> P x (last xs)"
  by (induction xs) auto

lemma accept_saved_ok:
  assumes "saved_ok s" and "accept m_fails new s = (brk, s')"
  shows "saved_ok s'"
proof (cases "rc_less new (nCrossingsOld s) \<and> rc_less new (m_nCrossingsCluster s)")
  case False
  with assms show ?thesis
    by (auto simp: accept_def saved_ok_def split: if_splits)
next
  case True
  then have lt: "rc_less new (m_nCrossingsCluster s)" by simp
  have sv: "saves s' = saves s @ [(new, order (hier s))]"
    and best: "m_nCrossingsCluster s' = new" and st: "stored (hier s') = order (hier s)"
    using assms(2) True by (auto simp: accept_def Let_def storeCurrentPos_def split: if_splits)
  have below: "\<forall>c \<in> set (map fst (saves s)). rc_less new c"
  proof (cases "saves s = []")
    case True
    then show ?thesis by simp
  next
    case ne: False
    then have b: "m_nCrossingsCluster s = fst (last (saves s))"
      using assms(1) by (simp add: saved_ok_def)
    have srt: "sorted_wrt (\<lambda>a b. rc_less b a) (map fst (saves s))"
      using assms(1) by (simp add: saved_ok_def)
    show ?thesis
    proof
      fix c assume c: "c \<in> set (map fst (saves s))"
      have l: "last (map fst (saves s)) = fst (last (saves s))"
        using ne by (simp add: last_map)
      from sorted_wrt_last [OF srt c] l
      have "c = fst (last (saves s)) \<or> rc_less (fst (last (saves s))) c"
        by simp
      with lt b show "rc_less new c" by (auto intro: rc_less_trans)
    qed
  qed
  have inf: "rc_less new setInfinity"
  proof (cases "saves s = []")
    case True
    with assms(1) lt show ?thesis by (simp add: saved_ok_def)
  next
    case False
    then have m: "last (saves s) \<in> set (saves s)" by simp
    then have "rc_less (fst (last (saves s))) setInfinity"
      using assms(1) by (simp add: saved_ok_def list_all_iff)
    moreover have "rc_less new (fst (last (saves s)))"
      using below m by simp
    ultimately show ?thesis by (blast intro: rc_less_trans)
  qed
  show ?thesis
    using assms(1) sv best st below inf
    by (auto simp: saved_ok_def sorted_wrt_append)
qed


lemma traverse_saved_ok:
  "saved_ok s \<Longrightarrow> traverse sweep s = (cr, s') \<Longrightarrow> saved_ok s'"
  by (auto simp: traverse_def saved_ok_def split: prod.splits)

lemma sweep_loop_saved_ok:
  assumes "sweep_loop td bu m_fails s = Some r"
  shows "saved_ok s \<longrightarrow> saved_ok r"
  using assms
proof (rule sweep_loop.raw_induct
    [rotated 1, where P = "\<lambda>td bu m_fails s r. saved_ok s \<longrightarrow> saved_ok r"], goal_cases)
  case (1 loop td bu m_fails s r)
  show ?case
  proof
    assume ok: "saved_ok s"
    obtain c1 s1 where t1: "traverse td s = (c1, s1)" by (cases "traverse td s")
    obtain b2 s2 where a1: "accept m_fails c1 s1 = (b2, s2)" by (cases "accept m_fails c1 s1")
    obtain c3 s3 where t2: "traverse bu s2 = (c3, s3)" by (cases "traverse bu s2")
    obtain b4 s4 where a2: "accept m_fails c3 s3 = (b4, s4)" by (cases "accept m_fails c3 s3")
    have ok2: "saved_ok s2"
      using traverse_saved_ok [OF ok t1] a1 by (rule accept_saved_ok)
    have ok4: "saved_ok s4"
      using traverse_saved_ok [OF ok2 t2] a2 by (rule accept_saved_ok)
    show "saved_ok r"
      using 1(2) t1 a1 t2 a2 ok2 ok4 1(1)[of td bu m_fails s4 r]
      by (auto split: if_splits)
  qed
qed

lemma run_loop_saved_ok:
  assumes "run_loop td bu permute m_fails m_runs i s = Some r"
  shows "saved_ok s \<longrightarrow> saved_ok r"
  using assms
proof (rule run_loop.raw_induct
    [rotated 1, where P = "\<lambda>td bu permute m_fails m_runs i s r. saved_ok s \<longrightarrow> saved_ok r"],
    goal_cases)
  case (1 loop td bu permute m_fails m_runs i s r)
  show ?case
  proof
    assume ok: "saved_ok s"
    from 1(2) obtain s1 where
      sl: "sweep_loop td bu m_fails (s\<lparr>nFails := m_fails + 1\<rparr>) = Some s1"
      and rest: "(if isZero (m_nCrossingsCluster s1) \<or> i \<ge> m_runs then Some s1
               else loop td bu permute m_fails m_runs (i + 1)
                      (s1\<lparr>hier := (hier s1)\<lparr>order := permute i (order (hier s1))\<rparr>,
                          nCrossingsOld := setInfinity\<rparr>)) = Some r"
      by (auto simp: bind_eq_Some_conv)
    have "saved_ok (s\<lparr>nFails := m_fails + 1\<rparr>)"
      using ok by (simp add: saved_ok_def)
    with sweep_loop_saved_ok [OF sl] have ok1: "saved_ok s1" by simp
    then have "saved_ok (s1\<lparr>hier := (hier s1)\<lparr>order := permute i (order (hier s1))\<rparr>,
                          nCrossingsOld := setInfinity\<rparr>)"
      by (simp add: saved_ok_def)
    with rest ok1 1(1) show "saved_ok r"
      by (auto split: if_splits)
  qed
qed

text \<open>
  Claim C3. Over one run of the orchestrator, the counts at which \<open>storeCurrentPos\<close>
  is called are strictly decreasing in the lexicographic order, and each is below the
  initial infinity, so the best count never increases; when the run ends the best
  count is the last of them, and the current order is the order that was saved with
  it.
\<close>

theorem reduceCrossings_saves_decrease:
  assumes "reduceCrossings td bu permute m_fails m_runs H0 = Some r"
  shows "sorted_wrt (\<lambda>a b. rc_less b a) (map fst (saves r))
     \<and> list_all (\<lambda>c. rc_less c setInfinity) (map fst (saves r))
     \<and> (if saves r = [] then m_nCrossingsCluster r = setInfinity
         else m_nCrossingsCluster r = fst (last (saves r))
            \<and> order (hier r) = snd (last (saves r)))"
proof -
  let ?s0 = "\<lparr>hier = H0, m_nCrossingsCluster = setInfinity, nCrossingsOld = setInfinity,
           nFails = m_fails + 1, saves = []\<rparr>"
  from assms obtain s where rl: "run_loop td bu permute m_fails m_runs 1 ?s0 = Some s"
    and r: "r = s\<lparr>hier := restorePos (hier s)\<rparr>"
    by (auto simp: reduceCrossings_def bind_eq_Some_conv)
  have "saved_ok ?s0" by (simp add: saved_ok_def)
  with run_loop_saved_ok [OF rl] have "saved_ok s" by simp
  then show ?thesis
    unfolding r by (auto simp: saved_ok_def restorePos_def)
qed


lemma ex_run:
  "reduceCrossings ex_sweep ex_sweep (\<lambda>i k. k) 0 1 \<lparr>order = 0, stored = 0\<rparr> = Some ex_result"
  unfolding reduceCrossings_def
  apply (subst run_loop.simps)
  apply (subst sweep_loop.simps)
  apply (simp add: traverse_def accept_def ex_sweep_def rc_less_def isZero_def setInfinity_def
      INT_MAX_def storeCurrentPos_def restorePos_def Let_def)
  apply (subst sweep_loop.simps)
  apply (simp add: traverse_def accept_def ex_sweep_def rc_less_def isZero_def setInfinity_def
      INT_MAX_def storeCurrentPos_def restorePos_def Let_def ex_result_def)
  done

theorem reduceCrossings_saves_decrease_witness:
  "reduceCrossings ex_sweep ex_sweep (\<lambda>i k. k) 0 1 \<lparr>order = 0, stored = 0\<rparr> = Some ex_result
   \<and> sorted_wrt (\<lambda>a b. rc_less b a) (map fst (saves ex_result))
   \<and> length (saves ex_result) = 3
   \<and> m_nCrossingsCluster ex_result = fst (last (saves ex_result))
   \<and> order (hier ex_result) = snd (last (saves ex_result))"
  using reduceCrossings_saves_decrease [OF ex_run] ex_run
  by (simp add: ex_result_def)

subsection \<open>Preference edges\<close>

lemma compare_not_less: "\<not> RCCrossings_compare y x < 0 \<longleftrightarrow> rc_le y x"
  by (auto simp: RCCrossings_compare_def rc_le_def Let_def)

lemma fold_place_attempts:
  "attempts (fold place es s) = attempts s @ map (\<lambda>e. (m_src e, m_tgt e)) es"
  by (induction es arbitrary: s) (auto simp: place_def split: prod.splits)

lemma relationship_oriented:
  "m_cr (relationship toG cn j k) = rc_min (cn j k) (cn k j)
   \<and> m_crReverse (relationship toG cn j k) = rc_max (cn j k) (cn k j)
   \<and> rc_le (m_cr (relationship toG cn j k)) (m_crReverse (relationship toG cn j k))
   \<and> ((m_src (relationship toG cn j k), m_tgt (relationship toG cn j k)) = (toG j, toG k)
        \<and> m_cr (relationship toG cn j k) = cn j k
      \<or> (m_src (relationship toG cn j k), m_tgt (relationship toG cn j k)) = (toG k, toG j)
        \<and> m_cr (relationship toG cn j k) = cn k j)"
  by (auto simp: relationship_def rc_min_def rc_max_def rc_le_def split: if_splits)

lemma set_relationships:
  "set (relationships toG cn n) = {relationship toG cn j k | j k. j < k \<and> k < n}"
proof -
  have "\<And>j k. j < k \<Longrightarrow> k < n \<Longrightarrow>
      \<exists>x \<in> {0..<n}. relationship toG cn j k \<in> relationship toG cn x ` {Suc x..<n}"
  proof -
    fix j k assume "j < k" "k < n"
    then have "j \<in> {0..<n}" "k \<in> {Suc j..<n}" by auto
    then show "\<exists>x \<in> {0..<n}. relationship toG cn j k \<in> relationship toG cn x ` {Suc x..<n}"
      by blast
  qed
  moreover have "\<And>j k. Suc j \<le> k \<Longrightarrow> k < n \<Longrightarrow>
      \<exists>j' k'. relationship toG cn j k = relationship toG cn j' k' \<and> j' < k' \<and> k' < n"
    by (metis Suc_le_lessD)
  ultimately show ?thesis
    by (auto simp: relationships_def)
qed

lemma length_relationships: "length (relationships toG cn n) = n * (n - 1) div 2"
proof -
  have "length (relationships toG cn n) = (\<Sum>j\<leftarrow>[0..<n]. n - Suc j)"
    by (simp add: relationships_def length_concat comp_def)
  also have "\<dots> = (\<Sum>j<n. n - Suc j)"
    by (simp add: interv_sum_list_conv_sum_set_nat atLeast0LessThan)
  also have "\<dots> = (\<Sum>j<n. j)"
    by (rule sum.nat_diff_reindex)
  also have "\<dots> = n * (n - 1) div 2"
  proof -
    have "2 * (\<Sum>j<n. j) = n * (n - 1)"
    proof (induction n)
      case 0
      show ?case by simp
    next
      case (Suc n)
      then show ?case by (cases n) (simp_all add: algebra_simps)
    qed
    then show ?thesis by simp
  qed
  finally show ?thesis .
qed

lemma relationship_fields:
  "(m_src (relationship toG cn j k), m_tgt (relationship toG cn j k),
    m_cr (relationship toG cn j k), m_crReverse (relationship toG cn j k))
   = (if rc_le (cn j k) (cn k j) then (toG j, toG k, cn j k, cn k j)
      else (toG k, toG j, cn k j, cn j k))"
  by (simp add: relationship_def)

text \<open>
  Claim C2. There is one preference edge for every pair \<open>j < k\<close> of children. It
  leads from \<open>toG[j]\<close> to \<open>toG[k]\<close> with cost \<open>cn[j][k]\<close> and reverse cost
  \<open>cn[k][j]\<close> when \<open>cn[j][k] <= cn[k][j]\<close>, and from \<open>toG[k]\<close> to \<open>toG[j]\<close> with
  cost \<open>cn[k][j]\<close> and reverse cost \<open>cn[j][k]\<close> otherwise, so its cost is the smaller
  and its reverse cost the larger of the two counts. \<open>tryEdge\<close> is called on source
  and target of the edges in the order of the sorted list, which is by descending
  \<open>reverseCost - cost\<close>, so the edge attempted first has the largest benefit of its
  preferred direction.
\<close>

theorem preference_edges_order:
  assumes "sorts_by LocationRelationshipComparer_compare quicksort"
  shows "attempts (placeRelationships quicksort toG cn n s)
           = attempts s @ map (\<lambda>e. (m_src e, m_tgt e)) (quicksort (relationships toG cn n))
     \<and> mset (quicksort (relationships toG cn n)) = mset (relationships toG cn n)
     \<and> set (relationships toG cn n) = {relationship toG cn j k | j k. j < k \<and> k < n}
     \<and> length (relationships toG cn n) = n * (n - 1) div 2
     \<and> (\<forall>j k. (m_src (relationship toG cn j k), m_tgt (relationship toG cn j k),
                m_cr (relationship toG cn j k), m_crReverse (relationship toG cn j k))
               = (if rc_le (cn j k) (cn k j) then (toG j, toG k, cn j k, cn k j)
                  else (toG k, toG j, cn k j, cn j k)))
     \<and> (\<forall>j k. m_cr (relationship toG cn j k) = rc_min (cn j k) (cn k j)
             \<and> m_crReverse (relationship toG cn j k) = rc_max (cn j k) (cn k j))
     \<and> sorted_wrt (\<lambda>a b. rc_le (weight b) (weight a)) (quicksort (relationships toG cn n))
     \<and> (\<forall>e \<in> set (relationships toG cn n).
           rc_le (weight e) (weight (hd (quicksort (relationships toG cn n)))))"
proof -
  let ?es = "relationships toG cn n"
  have perm: "mset (quicksort ?es) = mset ?es"
    and srt: "sorted_wrt (\<lambda>x y. \<not> LocationRelationshipComparer_compare y x < 0) (quicksort ?es)"
    using assms by (auto simp: sorts_by_def)
  have desc: "sorted_wrt (\<lambda>a b. rc_le (weight b) (weight a)) (quicksort ?es)"
    using srt by (simp add: LocationRelationshipComparer_compare_def compare_not_less)
  have first: "\<forall>e \<in> set ?es. rc_le (weight e) (weight (hd (quicksort ?es)))"
  proof
    fix e assume "e \<in> set ?es"
    then have m: "e \<in> set (quicksort ?es)" using perm by (metis set_mset_mset)
    then obtain x xs where q: "quicksort ?es = x # xs" by (cases "quicksort ?es") auto
    with desc m show "rc_le (weight e) (weight (hd (quicksort ?es)))"
      by (auto simp: rc_le_def)
  qed
  have att: "attempts (placeRelationships quicksort toG cn n s)
           = attempts s @ map (\<lambda>e. (m_src e, m_tgt e)) (quicksort ?es)"
    by (simp add: placeRelationships_def fold_place_attempts)
  have mm: "\<forall>j k. m_cr (relationship toG cn j k) = rc_min (cn j k) (cn k j)
             \<and> m_crReverse (relationship toG cn j k) = rc_max (cn j k) (cn k j)"
    using relationship_oriented by blast
  have fields: "\<forall>j k. (m_src (relationship toG cn j k), m_tgt (relationship toG cn j k),
                m_cr (relationship toG cn j k), m_crReverse (relationship toG cn j k))
               = (if rc_le (cn j k) (cn k j) then (toG j, toG k, cn j k, cn k j)
                  else (toG k, toG j, cn k j, cn j k))"
    using relationship_fields by blast
  show ?thesis
    apply (intro conjI)
           apply (rule att)
          apply (rule perm)
         apply (rule set_relationships)
        apply (rule length_relationships)
       apply (rule fields)
      apply (rule mm)
     apply (rule desc)
    apply (rule first)
    done
qed


lemma mset_insert_by: "mset (insert_by cmp x ys) = add_mset x (mset ys)"
  by (induction ys) auto

lemma set_insert_by: "set (insert_by cmp x ys) = insert x (set ys)"
  by (induction ys) auto

lemma sorted_insert_by:
  assumes asym: "\<And>a b. cmp a b < 0 \<Longrightarrow> \<not> cmp b a < 0"
    and negtrans: "\<And>a b c. \<not> cmp a b < 0 \<Longrightarrow> \<not> cmp b c < 0 \<Longrightarrow> \<not> cmp a c < 0"
  shows "sorted_wrt (\<lambda>x y. \<not> cmp y x < 0) ys \<Longrightarrow>
         sorted_wrt (\<lambda>x y. \<not> cmp y x < 0) (insert_by cmp x ys)"
proof (induction ys)
  case Nil
  then show ?case by simp
next
  case (Cons y ys)
  show ?case
  proof (cases "cmp y x < 0")
    case True
    then have "\<not> cmp x y < 0" by (rule asym)
    with Cons True show ?thesis by (auto simp: set_insert_by)
  next
    case False
    have "\<forall>z \<in> set ys. \<not> cmp z x < 0"
    proof
      fix z assume "z \<in> set ys"
      with Cons(2) have "\<not> cmp z y < 0" by simp
      then show "\<not> cmp z x < 0" using False by (rule negtrans)
    qed
    with Cons(2) False show ?thesis by simp
  qed
qed

lemma insertion_sort_sorts_by:
  assumes asym: "\<And>a b. cmp a b < 0 \<Longrightarrow> \<not> cmp b a < 0"
    and negtrans: "\<And>a b c. \<not> cmp a b < 0 \<Longrightarrow> \<not> cmp b c < 0 \<Longrightarrow> \<not> cmp a c < 0"
  shows "sorts_by cmp (insertion_sort cmp)"
  unfolding sorts_by_def
proof (intro allI conjI)
  fix xs :: "'a list"
  show "mset (insertion_sort cmp xs) = mset xs"
    by (induction xs) (simp_all add: insertion_sort_def mset_insert_by)
  show "sorted_wrt (\<lambda>x y. \<not> cmp y x < 0) (insertion_sort cmp xs)"
  proof (induction xs)
    case Nil
    then show ?case by (simp add: insertion_sort_def)
  next
    case (Cons x xs)
    have "sorted_wrt (\<lambda>x y. \<not> cmp y x < 0) (insert_by cmp x (insertion_sort cmp xs))"
      using asym negtrans Cons by (rule sorted_insert_by)
    then show ?case by (simp add: insertion_sort_def)
  qed
qed

lemma insertion_sort_sorts:
  "sorts_by LocationRelationshipComparer_compare
     (insertion_sort LocationRelationshipComparer_compare)"
  by (rule insertion_sort_sorts_by)
    (auto simp: LocationRelationshipComparer_compare_def RCCrossings_compare_def Let_def
      split: if_splits)

lemma ex_sorted:
  "insertion_sort LocationRelationshipComparer_compare (relationships (\<lambda>j. j) ex_cn 3)
     = [\<lparr>m_src = 2, m_tgt = 1, m_cr = \<lparr>m_cnClusters = 0, m_cnEdges = 7\<rparr>,
          m_crReverse = \<lparr>m_cnClusters = 1, m_cnEdges = 0\<rparr>\<rparr>,
        \<lparr>m_src = 0, m_tgt = 2, m_cr = \<lparr>m_cnClusters = 0, m_cnEdges = 0\<rparr>,
          m_crReverse = \<lparr>m_cnClusters = 0, m_cnEdges = 5\<rparr>\<rparr>,
        \<lparr>m_src = 1, m_tgt = 0, m_cr = \<lparr>m_cnClusters = 0, m_cnEdges = 1\<rparr>,
          m_crReverse = \<lparr>m_cnClusters = 0, m_cnEdges = 3\<rparr>\<rparr>]"
  by (simp add: relationships_def relationship_def ex_cn_def rc_le_def insertion_sort_def
      LocationRelationshipComparer_compare_def RCCrossings_compare_def weight_def rc_minus_def
      upt_rec numeral_3_eq_3)

theorem preference_edges_order_witness:
  "sorts_by LocationRelationshipComparer_compare
     (insertion_sort LocationRelationshipComparer_compare)
   \<and> attempts (placeRelationships (insertion_sort LocationRelationshipComparer_compare)
                 (\<lambda>j. j) ex_cn 3 ex_placing) = [(2, 1), (0, 2), (1, 0)]
   \<and> weight (hd (insertion_sort LocationRelationshipComparer_compare
                    (relationships (\<lambda>j. j) ex_cn 3)))
       = \<lparr>m_cnClusters = 1, m_cnEdges = - 7\<rparr>"
  using preference_edges_order [OF insertion_sort_sorts, of "\<lambda>j. j" ex_cn 3 ex_placing]
    insertion_sort_sorts
  by (simp add: ex_sorted ex_placing_def weight_def rc_minus_def)

lemma ex_placed:
  "numCrossings (placeRelationships (insertion_sort LocationRelationshipComparer_compare)
                 (\<lambda>j. j) ex_cn 3 ex_placing) = \<lparr>m_cnClusters = 0, m_cnEdges = 10\<rparr>"
  by (simp add: placeRelationships_def ex_sorted ex_placing_def place_def tryEdge_def
      reachable_def adjEdges_def newEdge_def rc_plus_def ex_H_def ex_ENG_def)

subsection \<open>Saving and restoring the child orders\<close>

lemma stored_upd_refl: "stored_upd h h"
  by (auto simp: stored_upd_def split: option.splits)

lemma stored_upd_trans: "stored_upd a b \<Longrightarrow> stored_upd b c \<Longrightarrow> stored_upd a c"
  unfolding stored_upd_def
proof
  fix p assume ab: "\<forall>p. case a p of None \<Rightarrow> b p = None
      | Some nd \<Rightarrow> b p = Some nd \<or> b p = Some (nd\<lparr>m_storedChild := m_child nd\<rparr>)"
    and bc: "\<forall>p. case b p of None \<Rightarrow> c p = None
      | Some nd \<Rightarrow> c p = Some nd \<or> c p = Some (nd\<lparr>m_storedChild := m_child nd\<rparr>)"
  from ab [rule_format, of p] bc [rule_format, of p]
  show "case a p of None \<Rightarrow> c p = None
      | Some nd \<Rightarrow> c p = Some nd \<or> c p = Some (nd\<lparr>m_storedChild := m_child nd\<rparr>)"
    by (auto split: option.splits)
qed

lemma stored_upd_step:
  "h p = Some nd \<Longrightarrow> stored_upd h (h(p \<mapsto> nd\<lparr>m_storedChild := m_child nd\<rparr>))"
  by (auto simp: stored_upd_def split: option.splits)

lemma store_walk_restore:
  assumes "store_walk Q h = Some h1"
  shows "stored_upd h h1 \<and> (\<forall>r. stored_upd h1 r \<longrightarrow> restore_walk Q r = Some r)"
  using assms
proof (rule store_walk.raw_induct
    [rotated 1, where P = "\<lambda>Q h h1. stored_upd h h1
        \<and> (\<forall>r. stored_upd h1 r \<longrightarrow> restore_walk Q r = Some r)"], goal_cases)
  case (1 walk Q h h1)
  show ?case
  proof (cases Q)
    case Nil
    with 1(2) have "h1 = h" by simp
    with Nil show ?thesis
      by (subst restore_walk.simps) (simp add: stored_upd_refl)
  next
    case (Cons p Q')
    with 1(2) obtain nd where nd: "h p = Some nd"
      by (auto split: option.splits)
    show ?thesis
    proof (cases "m_type nd = Compound")
      case True
      let ?h' = "h(p \<mapsto> nd\<lparr>m_storedChild := m_child nd\<rparr>)"
      from 1(2) Cons nd True have "walk (Q' @ m_child nd) ?h' = Some h1" by simp
      from 1(1)[OF this] have u: "stored_upd ?h' h1"
        and ih: "\<And>r. stored_upd h1 r \<Longrightarrow> restore_walk (Q' @ m_child nd) r = Some r"
        by auto
      have "stored_upd h ?h'"
        using nd by (rule stored_upd_step)
      then have a: "stored_upd h h1"
        using u by (rule stored_upd_trans)
      have b: "\<And>r. stored_upd h1 r \<Longrightarrow> restore_walk Q r = Some r"
      proof -
        fix r assume r: "stored_upd h1 r"
        from stored_upd_trans [OF u r] have "stored_upd ?h' r" .
        then have rp: "r p = Some (nd\<lparr>m_storedChild := m_child nd\<rparr>)"
          by (auto simp: stored_upd_def split: option.splits dest!: spec [of _ p])
        then have "r(p \<mapsto> (nd\<lparr>m_storedChild := m_child nd\<rparr>)\<lparr>m_child := m_child nd\<rparr>) = r"
          by (auto simp: fun_eq_iff)
        then show "restore_walk Q r = Some r"
          using ih [OF r] rp True Cons
          by (subst restore_walk.simps) simp
      qed
      from a b show ?thesis by blast
    next
      case False
      from 1(2) Cons nd False have "walk Q' h = Some h1" by simp
      from 1(1)[OF this] have u: "stored_upd h h1"
        and ih: "\<And>r. stored_upd h1 r \<Longrightarrow> restore_walk Q' r = Some r"
        by auto
      have b: "\<And>r. stored_upd h1 r \<Longrightarrow> restore_walk Q r = Some r"
      proof -
        fix r assume r: "stored_upd h1 r"
        from stored_upd_trans [OF u r] have "stored_upd h r" .
        then obtain nd' where "r p = Some nd'" "m_type nd' = m_type nd"
          using nd by (auto simp: stored_upd_def split: option.splits dest!: spec [of _ p])
        then show "restore_walk Q r = Some r"
          using ih [OF r] False Cons
          by (subst restore_walk.simps) simp
      qed
      from u b show ?thesis by blast
    qed
  qed
qed

lemma storeCurrentPos_layers_restore:
  "storeCurrentPos_layers layers h = Some h1 \<Longrightarrow>
   stored_upd h h1 \<and> (\<forall>r. stored_upd h1 r \<longrightarrow> (\<forall>root \<in> set layers. restore_walk [root] r = Some r))"
proof (induction layers arbitrary: h)
  case Nil
  then show ?case by (simp add: stored_upd_refl)
next
  case (Cons root layers)
  from Cons(2) obtain h' where s: "store_walk [root] h = Some h'"
    and rest: "storeCurrentPos_layers layers h' = Some h1"
    by (auto simp: bind_eq_Some_conv)
  from store_walk_restore [OF s] have u: "stored_upd h h'"
    and r1: "\<And>r. stored_upd h' r \<Longrightarrow> restore_walk [root] r = Some r" by auto
  from Cons(1)[OF rest] have u2: "stored_upd h' h1"
    and r2: "\<And>r. stored_upd h1 r \<Longrightarrow> (\<forall>root \<in> set layers. restore_walk [root] r = Some r)"
    by auto
  show ?case
    using stored_upd_trans [OF u u2] r1 r2 stored_upd_trans [OF u2] by auto
qed

lemma restorePos_layers_identity:
  "\<forall>root \<in> set layers. restore_walk [root] h = Some h \<Longrightarrow>
   restorePos_layers layers (h, pos) = map_option (\<lambda>pos'. (h, pos')) (assignPos_layers layers h pos)"
proof (induction layers arbitrary: pos)
  case Nil
  then show ?case by simp
next
  case (Cons root layers)
  show ?case
  proof (cases "assignPos h [root] pos 0")
    case None
    with Cons(2) show ?thesis by simp
  next
    case (Some a)
    obtain pos' cnt where a: "a = (pos', cnt)" by (cases a)
    from Cons(1)[of pos'] Cons(2) Some a show ?thesis by simp
  qed
qed

text \<open>
  Claim C7, amended. \<open>storeCurrentPos\<close> leaves the child array of every tree node
  as it was. A \<open>restorePos\<close> that follows at once changes no tree node: its result is
  the same store, with the positions that \<open>assignPos\<close> computes, layer by layer, from
  the current child orders. So the positions are the same as before the two calls
  when they were the positions of the current child orders already (as after a sweep
  over every layer), and then the two calls change nothing but \<open>m_storedChild\<close>.
\<close>

theorem store_restore_recomputes_pos:
  assumes "storeCurrentPos_layers layers h = Some h1"
  shows "(\<forall>p. map_option m_child (h1 p) = map_option m_child (h p))
     \<and> restorePos_layers layers (h1, pos)
         = map_option (\<lambda>pos'. (h1, pos')) (assignPos_layers layers h1 pos)
     \<and> (assignPos_layers layers h1 pos = Some pos \<longrightarrow>
           restorePos_layers layers (h1, pos) = Some (h1, pos))"
proof -
  from storeCurrentPos_layers_restore [OF assms]
  have u: "stored_upd h h1" and r: "\<forall>root \<in> set layers. restore_walk [root] h1 = Some h1"
    using stored_upd_refl by blast+
  have "\<forall>p. map_option m_child (h1 p) = map_option m_child (h p)"
  proof
    fix p from u [unfolded stored_upd_def, rule_format, of p]
    show "map_option m_child (h1 p) = map_option m_child (h p)"
      by (auto split: option.splits)
  qed
  with restorePos_layers_identity [OF r, of pos] show ?thesis by simp
qed


lemma ex_assign_before: "assignPos_layers [0, 2] ex_layers ex_pos = Some ex_pos"
  by (simp add: assignPos.simps ex_layers_def ex_compound_def ex_leaf_def ex_pos_def fun_eq_iff)

lemma ex_permute: "permute_ENG rev [0, 2] (ex_layers, ex_pos) = Some (ex_permuted, ex_pos)"
  by (simp add: permute_ENG_def permute_walk.simps assignPos.simps ex_layers_def ex_permuted_def
      ex_compound_def ex_leaf_def ex_pos_def fun_eq_iff)

lemma ex_store: "storeCurrentPos_layers [0, 2] ex_permuted = Some ex_stored"
  by (simp add: store_walk.simps ex_permuted_def ex_stored_def ex_compound_def ex_leaf_def
      fun_eq_iff)

lemma ex_assign: "assignPos_layers [0, 2] ex_stored ex_pos = Some ex_pos'"
  by (simp add: assignPos.simps ex_stored_def ex_compound_def ex_leaf_def ex_pos_def ex_pos'_def
      fun_eq_iff)

lemma ex_assign': "assignPos_layers [0, 2] ex_stored ex_pos' = Some ex_pos'"
  by (simp add: assignPos.simps ex_stored_def ex_compound_def ex_leaf_def ex_pos'_def fun_eq_iff)

theorem store_restore_recomputes_pos_witness:
  "storeCurrentPos_layers [0, 2] ex_permuted = Some ex_stored
   \<and> assignPos_layers [0, 2] ex_stored ex_pos' = Some ex_pos'
   \<and> restorePos_layers [0, 2] (ex_stored, ex_pos') = Some (ex_stored, ex_pos')
   \<and> map_option m_child (ex_stored 2) = map_option m_child (ex_permuted 2)"
  using store_restore_recomputes_pos [OF ex_store, of ex_pos'] ex_store ex_assign'
  by simp

text \<open>
  Claim C7 as stated fails in a state that \<open>permute\<close> leaves: it shuffles the
  children on every layer and assigns the positions of layer 0 only, so on layer 1
  the positions are those of the former order, and \<open>storeCurrentPos\<close> followed by
  \<open>restorePos\<close> changes the position of vertex 10 from 0 to 1.
\<close>

theorem store_restore_pos_counterexample:
  "assignPos_layers [0, 2] ex_layers ex_pos = Some ex_pos
   \<and> permute_ENG rev [0, 2] (ex_layers, ex_pos) = Some (ex_permuted, ex_pos)
   \<and> storeCurrentPos_layers [0, 2] ex_permuted = Some ex_stored
   \<and> restorePos_layers [0, 2] (ex_stored, ex_pos) = Some (ex_stored, ex_pos')
   \<and> ex_pos' 10 \<noteq> ex_pos 10"
proof -
  have "restorePos_layers [0, 2] (ex_stored, ex_pos) = Some (ex_stored, ex_pos')"
    by (simp add: restore_walk.simps assignPos.simps ex_stored_def ex_compound_def ex_leaf_def
        ex_pos_def ex_pos'_def fun_eq_iff)
  then show ?thesis
    using ex_assign_before ex_permute ex_store by (simp add: ex_pos_def ex_pos'_def)
qed

subsection \<open>Simplifying the adjacency lists\<close>

lemma compare_key: "AdjacencyComparer_compare h x y < 0 \<longleftrightarrow> adj_key h x < adj_key h y"
  by (auto simp: AdjacencyComparer_compare_def adj_key_def less_prod_def)

lemma adj_key_weight [simp]: "adj_key h (a\<lparr>m_weight := w\<rparr>) = adj_key h a"
  by (simp add: adj_key_def)

lemma pair_of_weight [simp]: "pair_of (a\<lparr>m_weight := w\<rparr>) = pair_of a"
  by (simp add: pair_of_def)

lemma pair_of_key: "pair_of a = pair_of b \<Longrightarrow> adj_key h a = adj_key h b"
  by (simp add: pair_of_def adj_key_def)

lemma unique_targets_pairs:
  assumes "unique_targets h xs" and "pair_of ` set ys \<subseteq> pair_of ` set xs"
  shows "unique_targets h ys"
  unfolding unique_targets_def
proof (intro ballI impI)
  fix a b assume a: "a \<in> set ys" and b: "b \<in> set ys" and k: "adj_key h a = adj_key h b"
  from a assms(2) obtain a' where a': "a' \<in> set xs" "pair_of a' = pair_of a" by force
  from b assms(2) obtain b' where b': "b' \<in> set xs" "pair_of b' = pair_of b" by force
  have "adj_key h a' = adj_key h b'"
    using k pair_of_key [OF a'(2), of h] pair_of_key [OF b'(2), of h] by simp
  with assms(1) a'(1) b'(1) have "m_v a' = m_v b'"
    unfolding unique_targets_def by blast
  with a'(2) b'(2) show "m_v a = m_v b" by (simp add: pair_of_def)
qed

lemma merge_runs_pairs: "pair_of ` set (merge_runs a as) = pair_of ` set (a # as)"
proof (induction as arbitrary: a)
  case Nil
  then show ?case by simp
next
  case (Cons b bs)
  show ?case
  proof (cases "m_u a = m_u b \<and> m_v a = m_v b")
    case True
    then have "pair_of b = pair_of a" by (simp add: pair_of_def)
    with Cons [of "a\<lparr>m_weight := m_weight a + m_weight b\<rparr>"] True show ?thesis by auto
  next
    case False
    with Cons [of b] show ?thesis by auto
  qed
qed

lemma merge_runs_keys: "adj_key h ` set (merge_runs a as) = adj_key h ` set (a # as)"
proof -
  have "\<And>X Y. pair_of ` X = pair_of ` Y \<Longrightarrow> adj_key h ` X = adj_key h ` Y"
  proof -
    fix X Y :: "Adjacency set" assume e: "pair_of ` X = pair_of ` Y"
    have k: "\<And>a. adj_key h a = (\<lambda>(u, v). (u, if isCompound h v then 0 else 1,
        if isCompound h v then originalCluster_index h v else getNode_index h v)) (pair_of a)"
      by (simp add: adj_key_def pair_of_def)
    have "adj_key h ` X = (\<lambda>(u, v). (u, if isCompound h v then 0 else 1,
        if isCompound h v then originalCluster_index h v else getNode_index h v)) ` pair_of ` X"
      unfolding image_image using k by simp
    also have "\<dots> = (\<lambda>(u, v). (u, if isCompound h v then 0 else 1,
        if isCompound h v then originalCluster_index h v else getNode_index h v)) ` pair_of ` Y"
      using e by simp
    also have "\<dots> = adj_key h ` Y"
      unfolding image_image using k by simp
    finally show "adj_key h ` X = adj_key h ` Y" .
  qed
  from this [OF merge_runs_pairs] show ?thesis .
qed

lemma merge_runs_strict:
  "sorted (map (adj_key h) (a # as)) \<Longrightarrow> unique_targets h (a # as) \<Longrightarrow>
   sorted_wrt (<) (map (adj_key h) (merge_runs a as))"
proof (induction as arbitrary: a)
  case Nil
  then show ?case by simp
next
  case (Cons b bs)
  have ab: "adj_key h a \<le> adj_key h b" and s: "sorted (map (adj_key h) (b # bs))"
    using Cons(2) by simp_all
  have u: "unique_targets h (b # bs)"
    using Cons(3) by (rule unique_targets_pairs) auto
  show ?case
  proof (cases "m_u a = m_u b \<and> m_v a = m_v b")
    case True
    let ?a = "a\<lparr>m_weight := m_weight a + m_weight b\<rparr>"
    have "pair_of a = pair_of b" using True by (simp add: pair_of_def)
    then have k: "adj_key h a = adj_key h b" by (rule pair_of_key)
    have "sorted (map (adj_key h) (?a # bs))" using s k by simp
    moreover have "unique_targets h (?a # bs)"
      using u by (rule unique_targets_pairs) (use \<open>pair_of a = pair_of b\<close> in auto)
    ultimately have "sorted_wrt (<) (map (adj_key h) (merge_runs ?a bs))"
      by (rule Cons(1))
    then show ?thesis using True by simp
  next
    case False
    have "adj_key h a \<noteq> adj_key h b"
    proof
      assume e: "adj_key h a = adj_key h b"
      have "a \<in> set (a # b # bs)" "b \<in> set (a # b # bs)" by simp_all
      with Cons(3) e have "m_v a = m_v b" unfolding unique_targets_def by blast
      moreover from e have "m_u a = m_u b" by (simp add: adj_key_def)
      ultimately show False using False by simp
    qed
    with ab have lt: "adj_key h a < adj_key h b" by simp
    have "\<forall>k \<in> adj_key h ` set (b # bs). adj_key h a < k"
    proof
      fix k assume "k \<in> adj_key h ` set (b # bs)"
      then obtain x where x: "x \<in> set (b # bs)" "k = adj_key h x" by blast
      have "adj_key h b \<le> adj_key h x"
        using s x(1) by auto
      with lt x(2) show "adj_key h a < k" by simp
    qed
    then have below: "\<forall>k \<in> adj_key h ` set (merge_runs b bs). adj_key h a < k"
      unfolding merge_runs_keys .
    have "sorted_wrt (<) (map (adj_key h) (merge_runs b bs))"
      using s u by (rule Cons(1))
    moreover from False have "merge_runs a (b # bs) = a # merge_runs b bs" by auto
    ultimately show ?thesis using below by simp
  qed
qed

lemma merge_runs_fixed:
  "sorted_wrt (<) (map (adj_key h) (a # as)) \<Longrightarrow> merge_runs a as = a # as"
proof (induction as arbitrary: a)
  case Nil
  then show ?case by simp
next
  case (Cons b bs)
  from Cons(2) have "adj_key h a < adj_key h b" by simp
  then have "adj_key h a \<noteq> adj_key h b" by simp
  then have "pair_of a \<noteq> pair_of b" using pair_of_key [of a b h] by blast
  then have ne: "\<not> (m_u a = m_u b \<and> m_v a = m_v b)" by (simp add: pair_of_def)
  have "merge_runs b bs = b # bs" using Cons(1)[of b] Cons(2) by simp
  moreover from ne have "merge_runs a (b # bs) = a # merge_runs b bs" by auto
  ultimately show ?case by simp
qed

lemma sort_fixed:
  assumes "sorts_by (AdjacencyComparer_compare h) qs"
    and "sorted_wrt (<) (map (adj_key h) xs)"
  shows "qs xs = xs"
proof -
  have m: "mset (qs xs) = mset xs"
    and "sorted_wrt (\<lambda>x y. \<not> AdjacencyComparer_compare h y x < 0) (qs xs)"
    using assms(1) by (auto simp: sorts_by_def)
  then have "sorted_wrt (\<lambda>x y. adj_key h x \<le> adj_key h y) (qs xs)"
    by (simp add: compare_key not_less)
  then have s1: "sorted (map (adj_key h) (qs xs))"
    by (simp add: sorted_wrt_map)
  have s2: "sorted (map (adj_key h) xs)" and d: "distinct (map (adj_key h) xs)"
    using assms(2) by (simp_all add: strict_sorted_iff)
  have "mset (map (adj_key h) (qs xs)) = mset (map (adj_key h) xs)"
    using m by simp
  from properties_for_sort [OF this s1] properties_for_sort [OF refl s2]
  have e: "map (adj_key h) (qs xs) = map (adj_key h) xs" by simp
  have "inj_on (adj_key h) (set xs)" using d by (simp add: distinct_map)
  moreover have "set (qs xs) = set xs" using m by (rule mset_eq_setD)
  ultimately have "inj_on (adj_key h) (set (qs xs) \<union> set xs)" by simp
  from inj_on_map_eq_map [OF this] e show ?thesis by simp
qed

lemma simplifyAdjacencies_strict:
  assumes "sorts_by (AdjacencyComparer_compare h) (qs (AdjacencyComparer_compare h))"
    and "unique_targets h adjs" and "simplifyAdjacencies qs h adjs = Some out"
  shows "sorted_wrt (<) (map (adj_key h) out) \<and> pair_of ` set out = pair_of ` set adjs"
proof (cases "adjs = []")
  case True
  with assms(3) show ?thesis by (simp add: simplifyAdjacencies_def)
next
  case False
  define s where "s = qs (AdjacencyComparer_compare h) adjs"
  from assms(1) have m: "mset s = mset adjs"
    and srt: "sorted_wrt (\<lambda>x y. \<not> AdjacencyComparer_compare h y x < 0) s"
    unfolding sorts_by_def s_def by blast+
  from srt have "sorted_wrt (\<lambda>x y. adj_key h x \<le> adj_key h y) s"
    by (simp add: compare_key not_less)
  then have sk: "sorted (map (adj_key h) s)" by (simp add: sorted_wrt_map)
  have st: "set s = set adjs" using m by (rule mset_eq_setD)
  have u: "unique_targets h s" using assms(2) by (rule unique_targets_pairs) (simp add: st)
  from False st obtain a as where c: "s = a # as" by (cases s) auto
  from assms(3) False have "Some out = (case s of [] \<Rightarrow> Some [] | a # as \<Rightarrow> Some (merge_runs a as))"
    unfolding simplifyAdjacencies_def s_def by (simp split: if_splits)
  then have out: "out = merge_runs a as" unfolding c by simp
  have "sorted_wrt (<) (map (adj_key h) (merge_runs a as))"
    using sk u unfolding c by (rule merge_runs_strict)
  moreover have "pair_of ` set (merge_runs a as) = pair_of ` set adjs"
    unfolding merge_runs_pairs c [symmetric] st ..
  ultimately show ?thesis unfolding out by simp
qed


lemma simplifyAdjacencies_pairs:
  "simplifyAdjacencies qs h adjs = Some out \<Longrightarrow>
   sorts_by (AdjacencyComparer_compare h) (qs (AdjacencyComparer_compare h)) \<Longrightarrow>
   unique_targets h adjs \<Longrightarrow> unique_targets h out"
proof -
  assume a: "simplifyAdjacencies qs h adjs = Some out"
    and b: "sorts_by (AdjacencyComparer_compare h) (qs (AdjacencyComparer_compare h))"
    and c: "unique_targets h adjs"
  from simplifyAdjacencies_strict [OF b c a]
  have "pair_of ` set out \<subseteq> pair_of ` set adjs" by simp
  with c show "unique_targets h out" by (rule unique_targets_pairs)
qed

lemma simplifyAdjacencies_idem:
  assumes "sorts_by (AdjacencyComparer_compare h) (qs (AdjacencyComparer_compare h))"
    and "unique_targets h adjs" and "simplifyAdjacencies qs h adjs = Some out"
  shows "simplifyAdjacencies qs h out = Some out"
proof (cases out)
  case Nil
  then show ?thesis by (simp add: simplifyAdjacencies_def)
next
  case (Cons a as)
  from simplifyAdjacencies_strict [OF assms]
  have st: "sorted_wrt (<) (map (adj_key h) out)"
    and pr: "pair_of ` set out = pair_of ` set adjs" by simp_all
  have ne: "adjs \<noteq> []" using pr Cons by auto
  with assms(3) have live: "\<forall>x \<in> set adjs. h (m_v x) \<noteq> None"
    by (auto simp: simplifyAdjacencies_def split: if_splits)
  have live': "\<not> (\<exists>x \<in> set out. h (m_v x) = None)"
  proof
    assume "\<exists>x \<in> set out. h (m_v x) = None"
    then obtain x where x: "x \<in> set out" "h (m_v x) = None" by blast
    then have "pair_of x \<in> pair_of ` set adjs" using pr by blast
    then obtain y where y: "y \<in> set adjs" "pair_of y = pair_of x" by force
    from y(1) live have "h (m_v y) \<noteq> None" by blast
    moreover from y(2) have "m_v y = m_v x" by (simp add: pair_of_def)
    ultimately show False using x(2) by simp
  qed
  have q: "qs (AdjacencyComparer_compare h) out = out"
    using assms(1) st by (rule sort_fixed)
  have m: "merge_runs a as = a # as"
    using st unfolding Cons by (rule merge_runs_fixed)
  show ?thesis
    unfolding simplifyAdjacencies_def q using live' Cons m by simp
qed

lemma same_shape_simplify:
  assumes "same_shape h r"
  shows "simplifyAdjacencies qs r = simplifyAdjacencies qs h"
    and "adj_key r = adj_key h"
proof -
  have pt: "\<And>a. (r a = None) = (h a = None) \<and> isCompound r a = isCompound h a
      \<and> originalCluster_index r a = originalCluster_index h a
      \<and> getNode_index r a = getNode_index h a"
  proof -
    fix a
    from assms have c: "case h a of None \<Rightarrow> r a = None
          | Some nd \<Rightarrow> \<exists>U L. r a = Some (nd\<lparr>m_upperAdj := U, m_lowerAdj := L\<rparr>)"
      by (simp add: same_shape_def)
    show "(r a = None) = (h a = None) \<and> isCompound r a = isCompound h a
      \<and> originalCluster_index r a = originalCluster_index h a
      \<and> getNode_index r a = getNode_index h a"
    proof (cases "h a")
      case None
      with c show ?thesis
        by (simp add: isCompound_def originalCluster_index_def getNode_index_def)
    next
      case (Some nd)
      with c obtain U L where "r a = Some (nd\<lparr>m_upperAdj := U, m_lowerAdj := L\<rparr>)" by auto
      with Some show ?thesis
        by (simp add: isCompound_def originalCluster_index_def getNode_index_def)
    qed
  qed
  have cmp: "AdjacencyComparer_compare r = AdjacencyComparer_compare h"
    by (simp add: AdjacencyComparer_compare_def fun_eq_iff pt)
  show k: "adj_key r = adj_key h"
    by (simp add: adj_key_def fun_eq_iff pt)
  have dead: "\<And>xs. (\<exists>a \<in> set xs. r (m_v a) = None) = (\<exists>a \<in> set xs. h (m_v a) = None)"
    using pt by simp
  show "simplifyAdjacencies qs r = simplifyAdjacencies qs h"
    unfolding simplifyAdjacencies_def cmp dead ..
qed


lemma simp_upd_refl: "simp_upd qs h h"
  by (simp add: simp_upd_def split: option.splits)

lemma simp_upd_shape: "simp_upd qs h r \<Longrightarrow> same_shape h r"
  unfolding simp_upd_def same_shape_def
proof
  fix a
  assume "\<forall>p. case h p of None \<Rightarrow> r p = None
          | Some nd \<Rightarrow> r p = Some nd
              \<or> (\<exists>U L. simplifyAdjacencies qs h (m_upperAdj nd) = Some U
                    \<and> simplifyAdjacencies qs h (m_lowerAdj nd) = Some L
                    \<and> r p = Some (nd\<lparr>m_upperAdj := U, m_lowerAdj := L\<rparr>))"
  then have c: "case h a of None \<Rightarrow> r a = None
          | Some nd \<Rightarrow> r a = Some nd
              \<or> (\<exists>U L. simplifyAdjacencies qs h (m_upperAdj nd) = Some U
                    \<and> simplifyAdjacencies qs h (m_lowerAdj nd) = Some L
                    \<and> r a = Some (nd\<lparr>m_upperAdj := U, m_lowerAdj := L\<rparr>))" ..
  show "case h a of None \<Rightarrow> r a = None
          | Some nd \<Rightarrow> \<exists>U L. r a = Some (nd\<lparr>m_upperAdj := U, m_lowerAdj := L\<rparr>)"
  proof (cases "h a")
    case None
    with c show ?thesis by simp
  next
    case (Some nd)
    with c have "r a = Some nd \<or> (\<exists>U L. r a = Some (nd\<lparr>m_upperAdj := U, m_lowerAdj := L\<rparr>))"
      by auto
    moreover have "nd = nd\<lparr>m_upperAdj := m_upperAdj nd, m_lowerAdj := m_lowerAdj nd\<rparr>"
      by simp
    ultimately have "\<exists>U L. r a = Some (nd\<lparr>m_upperAdj := U, m_lowerAdj := L\<rparr>)"
      by metis
    with Some show ?thesis by simp
  qed
qed

lemma simp_upd_at:
  assumes "simp_upd qs h r" and "h p = Some nd"
  shows "r p = Some nd
     \<or> (\<exists>U L. simplifyAdjacencies qs h (m_upperAdj nd) = Some U
           \<and> simplifyAdjacencies qs h (m_lowerAdj nd) = Some L
           \<and> r p = Some (nd\<lparr>m_upperAdj := U, m_lowerAdj := L\<rparr>))"
proof -
  from assms(1) have "case h p of None \<Rightarrow> r p = None
          | Some nd \<Rightarrow> r p = Some nd
              \<or> (\<exists>U L. simplifyAdjacencies qs h (m_upperAdj nd) = Some U
                    \<and> simplifyAdjacencies qs h (m_lowerAdj nd) = Some L
                    \<and> r p = Some (nd\<lparr>m_upperAdj := U, m_lowerAdj := L\<rparr>))"
    unfolding simp_upd_def ..
  with assms(2) show ?thesis by simp
qed

lemma simp_upd_none:
  assumes "simp_upd qs h r" and "h p = None"
  shows "r p = None"
proof -
  from assms(1) have "case h p of None \<Rightarrow> r p = None
          | Some nd \<Rightarrow> r p = Some nd
              \<or> (\<exists>U L. simplifyAdjacencies qs h (m_upperAdj nd) = Some U
                    \<and> simplifyAdjacencies qs h (m_lowerAdj nd) = Some L
                    \<and> r p = Some (nd\<lparr>m_upperAdj := U, m_lowerAdj := L\<rparr>))"
    unfolding simp_upd_def ..
  with assms(2) show ?thesis by simp
qed

lemma simp_updI:
  assumes "\<And>p. h p = None \<Longrightarrow> r p = None"
    and "\<And>p nd. h p = Some nd \<Longrightarrow> r p = Some nd
     \<or> (\<exists>U L. simplifyAdjacencies qs h (m_upperAdj nd) = Some U
           \<and> simplifyAdjacencies qs h (m_lowerAdj nd) = Some L
           \<and> r p = Some (nd\<lparr>m_upperAdj := U, m_lowerAdj := L\<rparr>))"
  shows "simp_upd qs h r"
  unfolding simp_upd_def
proof
  fix p show "case h p of None \<Rightarrow> r p = None
          | Some nd \<Rightarrow> r p = Some nd
              \<or> (\<exists>U L. simplifyAdjacencies qs h (m_upperAdj nd) = Some U
                    \<and> simplifyAdjacencies qs h (m_lowerAdj nd) = Some L
                    \<and> r p = Some (nd\<lparr>m_upperAdj := U, m_lowerAdj := L\<rparr>))"
    using assms(1)[of p] assms(2)[of p] by (cases "h p") simp_all
qed

lemma simp_upd_trans:
  assumes s: "sorter qs" and u: "unique_heap a" and ab: "simp_upd qs a b" and bc: "simp_upd qs b c"
  shows "simp_upd qs a c"
proof (rule simp_updI)
  fix p assume "a p = None"
  then have "b p = None" using ab by (rule simp_upd_none [rotated])
  then show "c p = None" using bc by (rule simp_upd_none [rotated])
next
  fix p nd assume nd: "a p = Some nd"
  have Sb: "simplifyAdjacencies qs b = simplifyAdjacencies qs a"
    using simp_upd_shape [OF ab] by (rule same_shape_simplify)
  have so: "sorts_by (AdjacencyComparer_compare a) (qs (AdjacencyComparer_compare a))"
    using s by (simp add: sorter_def)
  have uu: "unique_targets a (m_upperAdj nd)" and ul: "unique_targets a (m_lowerAdj nd)"
    using u nd by (auto simp: unique_heap_def)
  from simp_upd_at [OF ab nd]
  show "c p = Some nd
     \<or> (\<exists>U L. simplifyAdjacencies qs a (m_upperAdj nd) = Some U
           \<and> simplifyAdjacencies qs a (m_lowerAdj nd) = Some L
           \<and> c p = Some (nd\<lparr>m_upperAdj := U, m_lowerAdj := L\<rparr>))"
  proof
    assume b: "b p = Some nd"
    from simp_upd_at [OF bc b] show ?thesis unfolding Sb .
  next
    assume "\<exists>U L. simplifyAdjacencies qs a (m_upperAdj nd) = Some U
           \<and> simplifyAdjacencies qs a (m_lowerAdj nd) = Some L
           \<and> b p = Some (nd\<lparr>m_upperAdj := U, m_lowerAdj := L\<rparr>)"
    then obtain U L where U: "simplifyAdjacencies qs a (m_upperAdj nd) = Some U"
      and L: "simplifyAdjacencies qs a (m_lowerAdj nd) = Some L"
      and b: "b p = Some (nd\<lparr>m_upperAdj := U, m_lowerAdj := L\<rparr>)" by blast
    have iU: "simplifyAdjacencies qs a U = Some U"
      using so uu U by (rule simplifyAdjacencies_idem)
    have iL: "simplifyAdjacencies qs a L = Some L"
      using so ul L by (rule simplifyAdjacencies_idem)
    from simp_upd_at [OF bc b]
    have "c p = Some (nd\<lparr>m_upperAdj := U, m_lowerAdj := L\<rparr>)"
      unfolding Sb using iU iL by auto
    with U L show ?thesis by blast
  qed
qed

lemma simp_upd_unique:
  assumes s: "sorter qs" and u: "unique_heap h" and hr: "simp_upd qs h r"
  shows "unique_heap r"
  unfolding unique_heap_def
proof (intro allI impI)
  fix p nd' assume r: "r p = Some nd'"
  have k: "adj_key r = adj_key h"
    using simp_upd_shape [OF hr] by (rule same_shape_simplify)
  have ut: "\<And>xs. unique_targets r xs = unique_targets h xs"
    by (simp add: unique_targets_def k)
  have so: "sorts_by (AdjacencyComparer_compare h) (qs (AdjacencyComparer_compare h))"
    using s by (simp add: sorter_def)
  obtain nd where nd: "h p = Some nd"
    using simp_upd_none [OF hr, of p] r by (cases "h p") auto
  then have uu: "unique_targets h (m_upperAdj nd)" and ul: "unique_targets h (m_lowerAdj nd)"
    using u by (auto simp: unique_heap_def)
  from simp_upd_at [OF hr nd]
  show "unique_targets r (m_upperAdj nd') \<and> unique_targets r (m_lowerAdj nd')"
  proof
    assume "r p = Some nd"
    with r uu ul show ?thesis by (simp add: ut)
  next
    assume "\<exists>U L. simplifyAdjacencies qs h (m_upperAdj nd) = Some U
           \<and> simplifyAdjacencies qs h (m_lowerAdj nd) = Some L
           \<and> r p = Some (nd\<lparr>m_upperAdj := U, m_lowerAdj := L\<rparr>)"
    then obtain U L where U: "simplifyAdjacencies qs h (m_upperAdj nd) = Some U"
      and L: "simplifyAdjacencies qs h (m_lowerAdj nd) = Some L"
      and b: "r p = Some (nd\<lparr>m_upperAdj := U, m_lowerAdj := L\<rparr>)" by blast
    have "unique_targets h U" using U so uu by (rule simplifyAdjacencies_pairs)
    moreover have "unique_targets h L" using L so ul by (rule simplifyAdjacencies_pairs)
    ultimately show ?thesis using b r by (auto simp: ut)
  qed
qed


lemma same_shape_upper:
  assumes "h p = Some nd"
  shows "same_shape h (h(p \<mapsto> nd\<lparr>m_upperAdj := U\<rparr>))"
  unfolding same_shape_def
proof
  fix a
  show "case h a of None \<Rightarrow> (h(p \<mapsto> nd\<lparr>m_upperAdj := U\<rparr>)) a = None
      | Some x \<Rightarrow> \<exists>U' L. (h(p \<mapsto> nd\<lparr>m_upperAdj := U\<rparr>)) a
                        = Some (x\<lparr>m_upperAdj := U', m_lowerAdj := L\<rparr>)"
  proof (cases "h a")
    case None
    with assms show ?thesis by auto
  next
    case (Some x)
    show ?thesis
    proof (cases "a = p")
      case True
      with Some assms have "x = nd" by simp
      then have "(h(p \<mapsto> nd\<lparr>m_upperAdj := U\<rparr>)) a
          = Some (x\<lparr>m_upperAdj := U, m_lowerAdj := m_lowerAdj x\<rparr>)"
        using True by simp
      then have "\<exists>U' L. (h(p \<mapsto> nd\<lparr>m_upperAdj := U\<rparr>)) a
                        = Some (x\<lparr>m_upperAdj := U', m_lowerAdj := L\<rparr>)"
        by (intro exI)
      then show ?thesis unfolding Some by simp
    next
      case False
      then have "(h(p \<mapsto> nd\<lparr>m_upperAdj := U\<rparr>)) a
          = Some (x\<lparr>m_upperAdj := m_upperAdj x, m_lowerAdj := m_lowerAdj x\<rparr>)"
        using Some by simp
      then have "\<exists>U' L. (h(p \<mapsto> nd\<lparr>m_upperAdj := U\<rparr>)) a
                        = Some (x\<lparr>m_upperAdj := U', m_lowerAdj := L\<rparr>)"
        by (intro exI)
      then show ?thesis unfolding Some by simp
    qed
  qed
qed

lemma simplify_walk_fixed:
  assumes "simplify_walk qs Q h = Some h1"
  shows "sorter qs \<longrightarrow> unique_heap h \<longrightarrow>
     simp_upd qs h h1 \<and> (\<forall>r. simp_upd qs h1 r \<longrightarrow> simplify_walk qs Q r = Some r)"
  using assms
proof (rule simplify_walk.raw_induct
    [rotated 1, where P = "\<lambda>qs Q h h1. sorter qs \<longrightarrow> unique_heap h \<longrightarrow>
       simp_upd qs h h1 \<and> (\<forall>r. simp_upd qs h1 r \<longrightarrow> simplify_walk qs Q r = Some r)"],
    goal_cases)
  case (1 walk qs Q h h1)
  show ?case
  proof (intro impI)
    assume s: "sorter qs" and u: "unique_heap h"
    show "simp_upd qs h h1 \<and> (\<forall>r. simp_upd qs h1 r \<longrightarrow> simplify_walk qs Q r = Some r)"
    proof (cases Q)
      case Nil
      with 1(2) have "h1 = h" by simp
      with Nil show ?thesis
        by (subst simplify_walk.simps) (simp add: simp_upd_refl)
    next
      case (Cons p Q')
      from 1(2) Cons obtain nd where nd: "h p = Some nd"
        by (auto split: option.splits)
      from 1(2) Cons nd obtain U where U: "simplifyAdjacencies qs h (m_upperAdj nd) = Some U"
        by (auto split: option.splits)
      let ?hm = "h(p \<mapsto> nd\<lparr>m_upperAdj := U\<rparr>)"
      from 1(2) Cons nd U obtain L where Lm: "simplifyAdjacencies qs ?hm (m_lowerAdj nd) = Some L"
        by (auto split: option.splits)
      let ?nd' = "nd\<lparr>m_upperAdj := U, m_lowerAdj := L\<rparr>"
      let ?h' = "h(p \<mapsto> ?nd')"
      from 1(2) Cons nd U Lm have w: "walk qs (Q' @ m_child nd) ?h' = Some h1"
        by simp
      have "same_shape h ?hm" using nd by (rule same_shape_upper)
      then have "simplifyAdjacencies qs ?hm = simplifyAdjacencies qs h"
        by (rule same_shape_simplify)
      with Lm have L: "simplifyAdjacencies qs h (m_lowerAdj nd) = Some L" by simp
      have hh': "simp_upd qs h ?h'"
      proof (rule simp_updI)
        fix q assume "h q = None"
        with nd show "?h' q = None" by auto
      next
        fix q ndq assume q: "h q = Some ndq"
        show "?h' q = Some ndq
          \<or> (\<exists>U L. simplifyAdjacencies qs h (m_upperAdj ndq) = Some U
                \<and> simplifyAdjacencies qs h (m_lowerAdj ndq) = Some L
                \<and> ?h' q = Some (ndq\<lparr>m_upperAdj := U, m_lowerAdj := L\<rparr>))"
        proof (cases "q = p")
          case True
          with q nd have "ndq = nd" by simp
          with True U L show ?thesis by simp
        next
          case False
          with q show ?thesis by simp
        qed
      qed
      have u': "unique_heap ?h'" using s u hh' by (rule simp_upd_unique)
      from 1(1)[OF w] s u' have h'h1: "simp_upd qs ?h' h1"
        and ih: "\<And>r. simp_upd qs h1 r \<Longrightarrow> simplify_walk qs (Q' @ m_child nd) r = Some r"
        by auto
      have a: "simp_upd qs h h1" using s u hh' h'h1 by (rule simp_upd_trans)
      have so: "sorts_by (AdjacencyComparer_compare h) (qs (AdjacencyComparer_compare h))"
        using s by (simp add: sorter_def)
      have uu: "unique_targets h (m_upperAdj nd)" and ul: "unique_targets h (m_lowerAdj nd)"
        using u nd by (auto simp: unique_heap_def)
      have iU: "simplifyAdjacencies qs h U = Some U"
        using so uu U by (rule simplifyAdjacencies_idem)
      have iL: "simplifyAdjacencies qs h L = Some L"
        using so ul L by (rule simplifyAdjacencies_idem)
      have S': "simplifyAdjacencies qs ?h' = simplifyAdjacencies qs h"
        using simp_upd_shape [OF hh'] by (rule same_shape_simplify)
      have b: "\<And>r. simp_upd qs h1 r \<Longrightarrow> simplify_walk qs Q r = Some r"
      proof -
        fix r assume r: "simp_upd qs h1 r"
        have h'r: "simp_upd qs ?h' r" using s u' h'h1 r by (rule simp_upd_trans)
        have hr: "simp_upd qs h r" using s u hh' h'r by (rule simp_upd_trans)
        have Sr: "simplifyAdjacencies qs r = simplifyAdjacencies qs h"
          using simp_upd_shape [OF hr] by (rule same_shape_simplify)
        have "?h' p = Some ?nd'" by simp
        from simp_upd_at [OF h'r this]
        have rp: "r p = Some ?nd'"
          unfolding S' using iU iL by auto
        have e1: "r(p \<mapsto> ?nd'\<lparr>m_upperAdj := U\<rparr>) = r"
          using rp by (auto simp: fun_eq_iff)
        have e2: "r(p \<mapsto> ?nd'\<lparr>m_upperAdj := U, m_lowerAdj := L\<rparr>) = r"
          using rp by (auto simp: fun_eq_iff)
        have "simplify_walk qs Q r =
            (case simplifyAdjacencies qs r (m_upperAdj ?nd') of
               None \<Rightarrow> None
             | Some U' \<Rightarrow>
                 (case simplifyAdjacencies qs (r(p \<mapsto> ?nd'\<lparr>m_upperAdj := U'\<rparr>))
                         (m_lowerAdj ?nd') of
                    None \<Rightarrow> None
                  | Some L' \<Rightarrow>
                      simplify_walk qs (Q' @ m_child ?nd')
                        (r(p \<mapsto> ?nd'\<lparr>m_upperAdj := U', m_lowerAdj := L'\<rparr>))))"
          by (subst simplify_walk.simps) (simp only: Cons rp list.case option.case)
        also have "simplifyAdjacencies qs r (m_upperAdj ?nd') = Some U"
          using iU by (simp add: Sr)
        also have "(case Some U of
               None \<Rightarrow> None
             | Some U' \<Rightarrow>
                 (case simplifyAdjacencies qs (r(p \<mapsto> ?nd'\<lparr>m_upperAdj := U'\<rparr>))
                         (m_lowerAdj ?nd') of
                    None \<Rightarrow> None
                  | Some L' \<Rightarrow>
                      simplify_walk qs (Q' @ m_child ?nd')
                        (r(p \<mapsto> ?nd'\<lparr>m_upperAdj := U', m_lowerAdj := L'\<rparr>))))
            = (case simplifyAdjacencies qs r (m_lowerAdj ?nd') of
                    None \<Rightarrow> None
                  | Some L' \<Rightarrow>
                      simplify_walk qs (Q' @ m_child ?nd')
                        (r(p \<mapsto> ?nd'\<lparr>m_upperAdj := U, m_lowerAdj := L'\<rparr>)))"
          by (simp only: option.case e1)
        also have "simplifyAdjacencies qs r (m_lowerAdj ?nd') = Some L"
          using iL by (simp add: Sr)
        also have "(case Some L of
                    None \<Rightarrow> None
                  | Some L' \<Rightarrow>
                      simplify_walk qs (Q' @ m_child ?nd')
                        (r(p \<mapsto> ?nd'\<lparr>m_upperAdj := U, m_lowerAdj := L'\<rparr>)))
            = simplify_walk qs (Q' @ m_child nd) r"
          by (simp only: option.case e2) simp
        also have "\<dots> = Some r" by (rule ih [OF r])
        finally show "simplify_walk qs Q r = Some r" .
      qed
      from a b show ?thesis by blast
    qed
  qed
qed

text \<open>
  Claim C8. With a sort that sorts by the comparer, on a layer whose adjacency lists
  refer to tree nodes that differ in kind or index, a second call of
  \<open>ENGLayer::simplifyAdjacencies\<close> right after a first one returns the store it was
  given: no upper and no lower adjacency list of any node changes in its entries,
  their order or their weights.
\<close>

theorem simplifyAdjacencies_idempotent:
  assumes "sorter quicksort" and "unique_heap h"
    and "simplify_walk quicksort [root] h = Some h1"
  shows "simplify_walk quicksort [root] h1 = Some h1"
proof -
  from simplify_walk_fixed [OF assms(3)] assms(1,2)
  have "\<forall>r. simp_upd quicksort h1 r \<longrightarrow> simplify_walk quicksort [root] r = Some r"
    by simp
  then show ?thesis using simp_upd_refl by blast
qed


lemma sorter_insertion_sort: "sorter insertion_sort"
  unfolding sorter_def
proof
  fix h
  show "sorts_by (AdjacencyComparer_compare h) (insertion_sort (AdjacencyComparer_compare h))"
    by (rule insertion_sort_sorts_by) (auto simp: compare_key)
qed

lemma ex_unique_heap: "unique_heap ex_adj_heap"
  unfolding unique_heap_def
proof (intro allI impI)
  fix p nd assume "ex_adj_heap p = Some nd"
  then have "m_lowerAdj nd = []
      \<and> (m_upperAdj nd = [] \<or> m_upperAdj nd = [ex_adj 5 2 1, ex_adj 5 1 1, ex_adj 5 2 1, ex_adj 4 1 1])"
    by (auto simp: ex_adj_heap_def ex_compound_def ex_leaf_def split: if_splits)
  moreover have "unique_targets ex_adj_heap []" by (simp add: unique_targets_def)
  moreover have "unique_targets ex_adj_heap [ex_adj 5 2 1, ex_adj 5 1 1, ex_adj 5 2 1, ex_adj 4 1 1]"
    by (simp add: unique_targets_def adj_key_def ex_adj_def ex_adj_heap_def isCompound_def
        getNode_index_def ex_leaf_def)
  ultimately show "unique_targets ex_adj_heap (m_upperAdj nd)
      \<and> unique_targets ex_adj_heap (m_lowerAdj nd)" by auto
qed

lemma ex_simplify: "simplify_walk insertion_sort [0] ex_adj_heap = Some ex_adj_heap'"
  by (simp add: simplify_walk.simps simplifyAdjacencies_def insertion_sort_def
      AdjacencyComparer_compare_def isCompound_def getNode_index_def originalCluster_index_def
      ex_adj_heap_def ex_adj_heap'_def ex_compound_def ex_leaf_def ex_adj_def fun_eq_iff)

theorem simplifyAdjacencies_idempotent_witness:
  "sorter insertion_sort \<and> unique_heap ex_adj_heap
   \<and> simplify_walk insertion_sort [0] ex_adj_heap = Some ex_adj_heap'
   \<and> simplify_walk insertion_sort [0] ex_adj_heap' = Some ex_adj_heap'"
  using simplifyAdjacencies_idempotent [OF sorter_insertion_sort ex_unique_heap ex_simplify]
    sorter_insertion_sort ex_unique_heap ex_simplify
  by simp

section \<open>Cluster-order edges of the constructor\<close>

lemma marks_only_refl: "marks_only H H"
  by (simp add: marks_only_def)

lemma marks_only_trans: "marks_only A B \<Longrightarrow> marks_only B C \<Longrightarrow> marks_only A C"
  by (simp add: marks_only_def)

lemma climb_marks_only:
  "climb CG w c pred H = Inl (x, H') \<Longrightarrow> marks_only H H'"
  "climb CG w c pred H = Inr (c', pred', H') \<Longrightarrow> marks_only H H'"
  by (auto simp: climb_def marks_only_def split: option.splits if_splits)

lemma lca_loop_marks_only:
  assumes "lca_loop CG u v c1 pred1 c2 pred2 H = Some r"
  shows "marks_only H (snd r)"
  using assms
proof (rule lca_loop.raw_induct
    [rotated 1, where P = "\<lambda>CG u v c1 pred1 c2 pred2 H r. marks_only H (snd r)"], goal_cases)
  case (1 loop CG u v c1 pred1 c2 pred2 H r)
  show ?case
  proof (cases "climb CG u c1 pred1 H")
    case (Inl found)
    with 1(2) have "found = r" by simp
    with Inl climb_marks_only(1) [of CG u c1 pred1 H "fst r" "snd r"] show ?thesis by simp
  next
    case (Inr a)
    obtain c1' pred1' H1 where a: "a = (c1', pred1', H1)" by (cases a)
    from climb_marks_only(2) Inr a have m1: "marks_only H H1" by blast
    show ?thesis
    proof (cases "climb CG v c2 pred2 H1")
      case (Inl found)
      with 1(2) Inr a have "found = r" by simp
      with Inl climb_marks_only(1) [of CG v c2 pred2 H1 "fst r" "snd r"]
      have "marks_only H1 (snd r)" by simp
      with m1 show ?thesis by (rule marks_only_trans)
    next
      case r2: (Inr b)
      obtain c2' pred2' H2 where b: "b = (c2', pred2', H2)" by (cases b)
      from climb_marks_only(2) r2 b have m2: "marks_only H1 H2" by blast
      from 1(2) Inr a r2 b have "loop CG u v c1' pred1' c2' pred2' H2 = Some r" by simp
      from 1(1)[OF this] have "marks_only H2 (snd r)" .
      with m1 m2 show ?thesis by (blast intro: marks_only_trans)
    qed
  qed
qed

lemma lca_marks_only: "lca CG u v H = Some (c, H') \<Longrightarrow> marks_only H H'"
proof -
  assume "lca CG u v H = Some (c, H')"
  then have "marks_only
      (H\<lparr>m_mark := fold (\<lambda>c m. m(c := None)) (m_markedClustersTree H) (m_mark H),
         m_markedClustersTree := []\<rparr>) (snd (c, H'))"
    unfolding lca_def by (rule lca_loop_marks_only)
  then show ?thesis by (simp add: marks_only_def)
qed

lemma addEdge_rejects_iff:
  assumes "topological H" and "\<forall>x. \<not> m_aeVisited H x"
  shows "fst (addEdge a b False H) = None \<longleftrightarrow> (b, a) \<in> (set (edges H))\<^sup>*"
proof -
  obtain r out vis' where re: "reachable (edges H) (m_aeVisited H) b a = (r, out, vis')"
    by (cases "reachable (edges H) (m_aeVisited H) b a") auto
  from reachable_correct [OF re assms(2)] have r: "r \<longleftrightarrow> (b, a) \<in> (set (edges H))\<^sup>*" by simp
  have top: "\<forall>(s, t) \<in> set (edges H). m_aeLevel H s < m_aeLevel H t"
    using assms(1) by (simp add: topological_def)
  have "(b, a) \<in> (set (edges H))\<^sup>* \<Longrightarrow> \<not> m_aeLevel H a < m_aeLevel H b"
  proof -
    assume "(b, a) \<in> (set (edges H))\<^sup>*"
    then have "b = a \<or> (b, a) \<in> (set (edges H))\<^sup>+" by (auto simp: rtrancl_eq_or_trancl)
    then show "\<not> m_aeLevel H a < m_aeLevel H b"
      using topological_path [OF top, of b a] by auto
  qed
  with r re show ?thesis
    by (auto simp: addEdge_def newEdge_def Let_def split: prod.splits)
qed


lemma lca_loop_marked:
  assumes "lca_loop CG u v c1 pred1 c2 pred2 H = Some r"
  shows "m_mark (snd r) (fst r) \<noteq> None"
  using assms
proof (rule lca_loop.raw_induct
    [rotated 1, where P = "\<lambda>CG u v c1 pred1 c2 pred2 H r. m_mark (snd r) (fst r) \<noteq> None"],
    goal_cases)
  case (1 loop CG u v c1 pred1 c2 pred2 H r)
  have found: "\<And>w c pred K x. climb CG w c pred K = Inl x \<Longrightarrow> m_mark (snd x) (fst x) \<noteq> None"
    by (auto simp: climb_def split: option.splits if_splits)
  show ?case
  proof (cases "climb CG u c1 pred1 H")
    case (Inl x)
    with 1(2) found [OF Inl] show ?thesis by simp
  next
    case (Inr a)
    obtain c1' pred1' H1 where a: "a = (c1', pred1', H1)" by (cases a)
    show ?thesis
    proof (cases "climb CG v c2 pred2 H1")
      case (Inl x)
      with 1(2) Inr a found [OF Inl] show ?thesis by simp
    next
      case r2: (Inr b)
      obtain c2' pred2' H2 where b: "b = (c2', pred2', H2)" by (cases b)
      from 1(2) Inr a r2 b have "loop CG u v c1' pred1' c2' pred2' H2 = Some r" by simp
      then show ?thesis by (rule 1(1))
    qed
  qed
qed

lemma addEdge_False_keeps:
  assumes "topological H" and "\<forall>x. \<not> m_aeVisited H x"
    and "addEdge a b False H = (r, H')"
  shows "topological H' \<and> (\<forall>x. \<not> m_aeVisited H' x)
     \<and> m_copy H' = m_copy H \<and> m_topNode H' = m_topNode H \<and> m_bottomNode H' = m_bottomNode H
     \<and> m_copyEdge H' = m_copyEdge H"
proof (cases r)
  case None
  obtain rr out vis' where re: "reachable (edges H) (m_aeVisited H) b a = (rr, out, vis')"
    by (cases "reachable (edges H) (m_aeVisited H) b a") auto
  from reachable_correct [OF re assms(2)] have "\<forall>x. \<not> vis' x" by simp
  with assms(3) None re have "H' = H\<lparr>m_aeVisited := vis'\<rparr>"
    by (auto simp: addEdge_def newEdge_def Let_def split: if_splits)
  with assms(1) \<open>\<forall>x. \<not> vis' x\<close> show ?thesis
    by (simp add: topological_def marks_only_def)
next
  case (Some e)
  have "a \<noteq> b"
  proof
    assume "a = b"
    then have "fst (addEdge a b False H) = None"
      using addEdge_rejects_iff [OF assms(1,2), of a b] by simp
    with assms(3) Some show False by simp
  qed
  from addEdge_keeps_topological [OF assms(1,2) this, of False e H'] assms(3) Some
  have "topological H'" "\<forall>x. \<not> m_aeVisited H' x" by simp_all
  moreover have "m_copy H' = m_copy H \<and> m_topNode H' = m_topNode H
      \<and> m_bottomNode H' = m_bottomNode H \<and> m_copyEdge H' = m_copyEdge H"
    using assms(3) by (auto simp: addEdge_def newEdge_def Let_def split: if_splits prod.splits)
  ultimately show ?thesis by (simp add: marks_only_def)
qed


lemma attempt_keeps:
  assumes "topological (eng s)" and "\<forall>x. \<not> m_aeVisited (eng s) x"
    and "attempt a b s = (r, s')"
  shows "topological (eng s') \<and> (\<forall>x. \<not> m_aeVisited (eng s') x)
     \<and> attempted s' = attempted s @ [(a, b)]
     \<and> m_copy (eng s') = m_copy (eng s) \<and> m_topNode (eng s') = m_topNode (eng s)
     \<and> m_bottomNode (eng s') = m_bottomNode (eng s)
     \<and> (r = None \<longleftrightarrow> (b, a) \<in> (set (edges (eng s)))\<^sup>*)"
proof -
  obtain e H' where a: "addEdge a b False (eng s) = (e, H')"
    by (cases "addEdge a b False (eng s)")
  with assms(3) have s': "s' = \<lparr>eng = H', attempted = attempted s @ [(a, b)]\<rparr>" and r: "r = e"
    by (auto simp: attempt_def)
  from addEdge_False_keeps [OF assms(1,2) a] addEdge_rejects_iff [OF assms(1,2), of a b] a
  show ?thesis unfolding s' r by simp
qed



lemma dep_parent: "cluster_tree CG depth \<Longrightarrow> dep depth (parent CG a) < dep depth (Some a)"
proof (cases "parent CG a")
  case None
  then show ?thesis by simp
next
  case (Some p)
  assume "cluster_tree CG depth"
  with Some have "depth p < depth a" by (simp add: cluster_tree_def)
  with Some show ?thesis by simp
qed

lemma lca_loop_returns:
  assumes tree: "cluster_tree CG depth"
  shows "(c1 = None \<longrightarrow> m_mark H (rootCluster CG) \<noteq> None \<and> c2 \<noteq> None) \<Longrightarrow>
         (c2 = None \<longrightarrow> m_mark H (rootCluster CG) \<noteq> None \<and> c1 \<noteq> None) \<Longrightarrow>
         \<exists>r. lca_loop CG u v c1 pred1 c2 pred2 H = Some r"
proof (induction "dep depth c1 + dep depth c2" arbitrary: c1 c2 pred1 pred2 H rule: less_induct)
  case less
  have root: "\<And>c. parent CG c = None \<longleftrightarrow> c = rootCluster CG"
    using tree by (simp add: cluster_tree_def)
  show ?case
  proof (cases c1)
    case None
    with less.prems obtain b where b: "c2 = Some b" and rm: "m_mark H (rootCluster CG) \<noteq> None"
      by auto
    show ?thesis
    proof (cases "m_mark H b \<noteq> None")
      case True
      with None b show ?thesis
        by (subst lca_loop.simps) (simp add: climb_def)
    next
      case False
      with rm have "b \<noteq> rootCluster CG" by auto
      with root obtain p where p: "parent CG b = Some p" by auto
      let ?H = "H\<lparr>m_mark := (m_mark H)(b \<mapsto> pred2),
                      m_markedClustersTree := m_markedClustersTree H @ [b]\<rparr>"
      have "\<exists>r. lca_loop CG u v None pred1 (Some p) b ?H = Some r"
      proof (rule less.hyps)
        show "dep depth None + dep depth (Some p) < dep depth c1 + dep depth c2"
          using dep_parent [OF tree, of b] p None b by simp
      qed (use rm in auto)
      with None b False p show ?thesis
        by (subst lca_loop.simps) (simp add: climb_def)
    qed
  next
    case (Some a)
    show ?thesis
    proof (cases "m_mark H a \<noteq> None")
      case True
      with Some show ?thesis
        by (subst lca_loop.simps) (simp add: climb_def)
    next
      case am: False
      let ?H1 = "H\<lparr>m_mark := (m_mark H)(a \<mapsto> pred1),
                      m_markedClustersTree := m_markedClustersTree H @ [a]\<rparr>"
      show ?thesis
      proof (cases c2)
        case None
        with less.prems have rm: "m_mark H (rootCluster CG) \<noteq> None" by auto
        with am have "a \<noteq> rootCluster CG" by auto
        with root obtain p where p: "parent CG a = Some p" by auto
        have "\<exists>r. lca_loop CG u v (Some p) a None pred2 ?H1 = Some r"
        proof (rule less.hyps)
          show "dep depth (Some p) + dep depth None < dep depth c1 + dep depth c2"
            using dep_parent [OF tree, of a] p None Some by simp
        qed (use rm in auto)
        with None Some am p show ?thesis
          by (subst lca_loop.simps) (simp add: climb_def)
      next
        case b: (Some b)
        show ?thesis
        proof (cases "m_mark ?H1 b \<noteq> None")
          case True
          with Some b am show ?thesis
            by (subst lca_loop.simps) (simp add: climb_def)
        next
          case bm: False
          then have ab: "a \<noteq> b" by auto
          let ?H2 = "?H1\<lparr>m_mark := (m_mark ?H1)(b \<mapsto> pred2),
                      m_markedClustersTree := m_markedClustersTree ?H1 @ [b]\<rparr>"
          have "\<exists>r. lca_loop CG u v (parent CG a) a (parent CG b) b ?H2 = Some r"
          proof (rule less.hyps)
            show "dep depth (parent CG a) + dep depth (parent CG b) < dep depth c1 + dep depth c2"
              using dep_parent [OF tree, of a] dep_parent [OF tree, of b] Some b by simp
            show "parent CG a = None \<longrightarrow> m_mark ?H2 (rootCluster CG) \<noteq> None \<and> parent CG b \<noteq> None"
              using root ab by auto
            show "parent CG b = None \<longrightarrow> m_mark ?H2 (rootCluster CG) \<noteq> None \<and> parent CG a \<noteq> None"
              using root ab by auto
          qed
          with Some b am bm show ?thesis
            by (subst lca_loop.simps) (simp add: climb_def)
        qed
      qed
    qed
  qed
qed

lemma lca_returns:
  assumes "cluster_tree CG depth"
  shows "\<exists>c H'. lca CG u v H = Some (c, H')"
proof -
  from lca_loop_returns [OF assms, of "Some (clusterOf CG u)" _ "Some (clusterOf CG v)"]
  show ?thesis unfolding lca_def by fastforce
qed

lemma cluster_order_edge_spec:
  assumes "topological (eng s)" and "\<forall>x. \<not> m_aeVisited (eng s) x"
    and "m_copyEdge (eng s) e = front # chain"
    and "(u, v) = (if fst (edges (eng s) ! front) \<noteq> m_copy (eng s) (fst (edges CG ! e))
                   then (snd (edges CG ! e), fst (edges CG ! e)) else edges CG ! e)"
    and "clusterOf CG u \<noteq> clusterOf CG v"
    and "lca CG u v (eng s) = Some (c, H1)"
  shows "\<exists>s' marked cFrom cTo.
       cluster_order_edge CG e s = Some s'
     \<and> m_mark H1 c = Some marked
     \<and> (cFrom, cTo) = (if m_secondPathTo H1 = v then (marked, m_secondPath H1)
                        else (m_secondPath H1, marked))
     \<and> attempted s' = attempted s
         @ (if cFrom \<noteq> c \<and> cTo \<noteq> c
            then [(m_bottomNode (eng s) cFrom, m_topNode (eng s) cTo)] else [])
         @ (if cFrom \<noteq> c \<and> cTo \<noteq> c
               \<and> (m_topNode (eng s) cTo, m_bottomNode (eng s) cFrom) \<notin> (set (edges (eng s)))\<^sup>*
            then []
            else [(m_copy (eng s) u, m_topNode (eng s) cTo),
                  (m_bottomNode (eng s) cFrom, m_copy (eng s) v)])
     \<and> topological (eng s') \<and> (\<forall>x. \<not> m_aeVisited (eng s') x)"
proof -
  from lca_loop_marked [OF assms(6) [unfolded lca_def]]
  obtain marked where mk: "m_mark H1 c = Some marked" by auto
  obtain cFrom cTo where w: "(cFrom, cTo) = (if m_secondPathTo H1 = v then (marked, m_secondPath H1)
                        else (m_secondPath H1, marked))"
    by (cases "m_secondPathTo H1 = v") auto
  have fr: "marks_only (eng s) H1" using assms(6) by (rule lca_marks_only)
  let ?s1 = "s\<lparr>eng := H1\<rparr>"
  have t1: "topological (eng ?s1)" and c1: "\<forall>x. \<not> m_aeVisited (eng ?s1) x"
    using assms(1,2) fr by (simp_all add: topological_def marks_only_def)
  have eq: "m_copy H1 = m_copy (eng s)" "m_topNode H1 = m_topNode (eng s)"
    "m_bottomNode H1 = m_bottomNode (eng s)" "edges H1 = edges (eng s)"
    using fr by (simp_all add: marks_only_def)
  let ?a = "m_bottomNode H1 cFrom" and ?b = "m_topNode H1 cTo"
  obtain eH s2 where first: "(if cFrom \<noteq> c \<and> cTo \<noteq> c then attempt ?a ?b ?s1 else (None, ?s1)) = (eH, s2)"
    by (cases "if cFrom \<noteq> c \<and> cTo \<noteq> c then attempt ?a ?b ?s1 else (None, ?s1)")
  have s2: "topological (eng s2) \<and> (\<forall>x. \<not> m_aeVisited (eng s2) x)
     \<and> attempted s2 = attempted s @ (if cFrom \<noteq> c \<and> cTo \<noteq> c then [(?a, ?b)] else [])
     \<and> m_copy (eng s2) = m_copy H1 \<and> m_topNode (eng s2) = m_topNode H1
     \<and> m_bottomNode (eng s2) = m_bottomNode H1
     \<and> (eH = None \<longleftrightarrow> \<not> (cFrom \<noteq> c \<and> cTo \<noteq> c \<and> (?b, ?a) \<notin> (set (edges H1))\<^sup>*))"
  proof (cases "cFrom \<noteq> c \<and> cTo \<noteq> c")
    case True
    with first have "attempt ?a ?b ?s1 = (eH, s2)" by simp
    from attempt_keeps [OF t1 c1 this] True show ?thesis by simp
  next
    case False
    with first have "eH = None" "s2 = ?s1" by auto
    with False t1 c1 show ?thesis by auto
  qed
  obtain r3 s3 where third: "attempt (m_copy H1 u) ?b s2 = (r3, s3)"
    by (cases "attempt (m_copy H1 u) ?b s2")
  from s2 have t2: "topological (eng s2)" and c2: "\<forall>x. \<not> m_aeVisited (eng s2) x" by simp_all
  from attempt_keeps [OF t2 c2 third]
  have s3: "topological (eng s3)" "\<forall>x. \<not> m_aeVisited (eng s3) x"
     "attempted s3 = attempted s2 @ [(m_copy H1 u, ?b)]" by simp_all
  obtain r4 s4 where fourth: "attempt ?a (m_copy H1 v) s3 = (r4, s4)"
    by (cases "attempt ?a (m_copy H1 v) s3")
  from attempt_keeps [OF s3(1,2) fourth]
  have s4: "topological (eng s4)" "\<forall>x. \<not> m_aeVisited (eng s4) x"
     "attempted s4 = attempted s3 @ [(?a, m_copy H1 v)]" by simp_all
  have res: "cluster_order_edge CG e s = Some (if eH = None then s4 else s2)"
    unfolding cluster_order_edge_def
    using assms(3,5) assms(4) [symmetric] assms(6) mk w [symmetric] first third fourth
    by (simp del: split_paired_Ex)
  show ?thesis
  proof (intro exI conjI)
    show "cluster_order_edge CG e s = Some (if eH = None then s4 else s2)" by (rule res)
    show "m_mark H1 c = Some marked" by (rule mk)
    show "(cFrom, cTo) = (if m_secondPathTo H1 = v then (marked, m_secondPath H1)
                        else (m_secondPath H1, marked))" by (rule w)
    show "topological (eng (if eH = None then s4 else s2))"
      using s2 s4 by simp
    show "\<forall>x. \<not> m_aeVisited (eng (if eH = None then s4 else s2)) x"
      using s2 s4 by simp
    show "attempted (if eH = None then s4 else s2) = attempted s
         @ (if cFrom \<noteq> c \<and> cTo \<noteq> c
            then [(m_bottomNode (eng s) cFrom, m_topNode (eng s) cTo)] else [])
         @ (if cFrom \<noteq> c \<and> cTo \<noteq> c
               \<and> (m_topNode (eng s) cTo, m_bottomNode (eng s) cFrom) \<notin> (set (edges (eng s)))\<^sup>*
            then []
            else [(m_copy (eng s) u, m_topNode (eng s) cTo),
                  (m_bottomNode (eng s) cFrom, m_copy (eng s) v)])"
      using s2 s3(3) s4(3) unfolding eq by (cases "eH = None") auto
  qed
qed

lemma ex_clustered_tree: "cluster_tree ex_clustered (\<lambda>c. if c = 0 then 0 else 1)"
  by (simp add: cluster_tree_def ex_clustered_def)



text \<open>
  The loop as a whole: the chains are not touched, so on a cluster tree every
  iteration finds its front edge, the loop returns, and the labeling is topological
  with clear visited flags at its end.
\<close>

lemma attempt_copyEdge: "m_copyEdge (eng (snd (attempt a b s))) = m_copyEdge (eng s)"
  by (simp add: attempt_def addEdge_def newEdge_def Let_def split: prod.splits)

lemma cluster_order_edge_copyEdge:
  assumes "cluster_order_edge CG e s = Some s'"
  shows "m_copyEdge (eng s') = m_copyEdge (eng s)"
proof -
  have mo: "\<And>u v c H1. lca CG u v (eng s) = Some (c, H1) \<Longrightarrow> m_copyEdge H1 = m_copyEdge (eng s)"
    using lca_marks_only by (fastforce simp: marks_only_def)
  have at: "\<And>a b s0 r s1. attempt a b s0 = (r, s1) \<Longrightarrow> m_copyEdge (eng s1) = m_copyEdge (eng s0)"
    using attempt_copyEdge by (metis snd_conv)
  show ?thesis
    using assms unfolding cluster_order_edge_def
    by (auto split: list.splits prod.splits if_splits option.splits
        simp: attempt_copyEdge dest!: mo at)
qed

lemma cluster_order_edges_returns:
  assumes tree: "cluster_tree CG depth"
    and top: "topological (eng s)" and clean: "\<forall>x. \<not> m_aeVisited (eng s) x"
    and chains: "\<forall>e < length (edges CG). m_copyEdge (eng s) e \<noteq> []"
  shows "\<exists>s'. cluster_order_edges CG s = Some s'
            \<and> topological (eng s') \<and> (\<forall>x. \<not> m_aeVisited (eng s') x)"
proof -
  have "m \<le> length (edges CG) \<Longrightarrow>
        \<exists>s'. fold (\<lambda>e r. Option.bind r (cluster_order_edge CG e)) [0..<m] (Some s) = Some s'
            \<and> topological (eng s') \<and> (\<forall>x. \<not> m_aeVisited (eng s') x)
            \<and> m_copyEdge (eng s') = m_copyEdge (eng s)" for m
  proof (induction m)
    case 0
    with top clean show ?case by simp
  next
    case (Suc m)
    then obtain s1 where
      f: "fold (\<lambda>e r. Option.bind r (cluster_order_edge CG e)) [0..<m] (Some s) = Some s1"
      and t1: "topological (eng s1)" and c1: "\<forall>x. \<not> m_aeVisited (eng s1) x"
      and ch: "m_copyEdge (eng s1) = m_copyEdge (eng s)" by auto
    from Suc.prems chains ch have "m_copyEdge (eng s1) m \<noteq> []" by simp
    then obtain front chain where fr: "m_copyEdge (eng s1) m = front # chain"
      by (cases "m_copyEdge (eng s1) m") auto
    obtain u v where uv:
      "(u, v) = (if fst (edges (eng s1) ! front) \<noteq> m_copy (eng s1) (fst (edges CG ! m))
                   then (snd (edges CG ! m), fst (edges CG ! m)) else edges CG ! m)"
      by (metis surj_pair)
    have "\<exists>s2. cluster_order_edge CG m s1 = Some s2
            \<and> topological (eng s2) \<and> (\<forall>x. \<not> m_aeVisited (eng s2) x)"
    proof (cases "clusterOf CG u = clusterOf CG v")
      case True
      with fr uv [symmetric] have "cluster_order_edge CG m s1 = Some s1"
        by (simp add: cluster_order_edge_def)
      with t1 c1 show ?thesis by simp
    next
      case False
      from lca_returns [OF tree] obtain c H1 where l: "lca CG u v (eng s1) = Some (c, H1)"
        by blast
      from cluster_order_edge_spec [OF t1 c1 fr uv False l] show ?thesis by blast
    qed
    then obtain s2 where s2: "cluster_order_edge CG m s1 = Some s2"
      "topological (eng s2)" "\<forall>x. \<not> m_aeVisited (eng s2) x" by blast
    from cluster_order_edge_copyEdge [OF s2(1)] ch
    have "m_copyEdge (eng s2) = m_copyEdge (eng s)" by simp
    with f s2 show ?case by simp
  qed
  from this [of "length (edges CG)"] show ?thesis
    unfolding cluster_order_edges_def by auto
qed

section \<open>Chains after the insertion of dummy nodes\<close>

lemma Graph_split_ENG:
  fixes H :: ExtendedNestingGraph
  assumes "Graph_split k H = (k', H1)"
  shows "k' = length (edges H)"
    and "edges H1 = (edges H)[k := (fst (edges H ! k), nodeIdCount H)]
                      @ [(nodeIdCount H, snd (edges H ! k))]"
    and "nodeIdCount H1 = Suc (nodeIdCount H)"
    and "m_rank H1 = m_rank H" and "m_copyEdge H1 = m_copyEdge H"
    and "m_origEdge H1 = m_origEdge H"
    and "m_topNode H1 = m_topNode H" and "m_bottomNode H1 = m_bottomNode H"
    and "m_origNode H1 = m_origNode H" and "m_copy H1 = m_copy H"
  using assms
  by (auto simp: Graph_split_def newNode_def newEdge_def split: prod.splits)

lemma wellformed_split:
  assumes "wellformed H" and "k < length (edges H)"
  shows "\<forall>(s, t) \<in> set ((edges H)[k := (fst (edges H ! k), nodeIdCount H)]
                      @ [(nodeIdCount H, snd (edges H ! k))]).
           s < Suc (nodeIdCount H) \<and> t < Suc (nodeIdCount H)"
proof -
  have a: "\<And>s t. (s, t) \<in> set (edges H) \<Longrightarrow> s < nodeIdCount H \<and> t < nodeIdCount H"
    using assms(1) by (auto simp: wellformed_def)
  from assms(2) have "edges H ! k \<in> set (edges H)" by simp
  with a [of "fst (edges H ! k)" "snd (edges H ! k)"]
  have k: "fst (edges H ! k) < nodeIdCount H" "snd (edges H ! k) < nodeIdCount H" by simp_all
  have "\<And>p. p \<in> set ((edges H)[k := (fst (edges H ! k), nodeIdCount H)])
       \<Longrightarrow> fst p < Suc (nodeIdCount H) \<and> snd p < Suc (nodeIdCount H)"
  proof -
    fix p assume "p \<in> set ((edges H)[k := (fst (edges H ! k), nodeIdCount H)])"
    then have "p \<in> insert (fst (edges H ! k), nodeIdCount H) (set (edges H))"
      using set_update_subset_insert by fastforce
    with a [of "fst p" "snd p"] k show "fst p < Suc (nodeIdCount H) \<and> snd p < Suc (nodeIdCount H)"
      by auto
  qed
  with k show ?thesis by auto
qed

lemma grows_trans:
  assumes "grows K H H1" and "grows K' H1 H2" and "\<forall>k \<in> K'. k < length (edges H) \<longrightarrow> k \<in> K"
  shows "grows K H H2"
  using assms unfolding grows_def
  by auto

lemma grows_refl: "wellformed H \<Longrightarrow> grows K H H"
  by (simp add: grows_def)

lemma unit_path_grows:
  assumes "wellformed H" and "grows K H H'" and "set ks \<inter> K = {}"
    and "unit_path (edges H) (m_rank H) ks a b"
  shows "unit_path (edges H') (m_rank H') ks a b"
  using assms(3,4)
proof (induction ks arbitrary: a)
  case Nil
  then show ?case by simp
next
  case (Cons k ks)
  from Cons.prems have k: "k < length (edges H)" "k \<notin> K" "fst (edges H ! k) = a"
    "m_rank H (snd (edges H ! k)) = m_rank H a + 1"
    "unit_path (edges H) (m_rank H) ks (snd (edges H ! k)) b" by auto
  from k(1) have "edges H ! k \<in> set (edges H)" by simp
  with assms(1) have lt: "fst (edges H ! k) < nodeIdCount H" "snd (edges H ! k) < nodeIdCount H"
    by (auto simp: wellformed_def)
  from assms(2) k(1,2) have e: "edges H' ! k = edges H ! k" "k < length (edges H')"
    by (auto simp: grows_def)
  from assms(2) lt have r: "m_rank H' (fst (edges H ! k)) = m_rank H (fst (edges H ! k))"
    "m_rank H' (snd (edges H ! k)) = m_rank H (snd (edges H ! k))"
    by (auto simp: grows_def)
  from Cons.prems have "set ks \<inter> K = {}" by auto
  from Cons.IH [OF this k(5)] e r k show ?case by simp
qed

lemma unit_path_append:
  "unit_path es r (ks @ [k]) u v \<longleftrightarrow>
     (\<exists>a. unit_path es r ks u a \<and> k < length es \<and> es ! k = (a, v) \<and> r v = r a + 1)"
  by (induction ks arbitrary: u) (auto simp: prod_eq_iff)

lemma unit_path_bound: "unit_path es r ks u v \<Longrightarrow> k \<in> set ks \<Longrightarrow> k < length es"
  by (induction ks arbitrary: u) auto

lemma split_step:
  fixes H H1 H2 :: ExtendedNestingGraph
  assumes "wellformed H" and "k < length (edges H)" and "Graph_split k H = (k', H1)"
    and "edges H2 = edges H1" and "nodeIdCount H2 = nodeIdCount H1"
    and "m_rank H2 = (m_rank H1)(fst (edges H1 ! k') := i)"
    and "m_topNode H2 = m_topNode H1" and "m_bottomNode H2 = m_bottomNode H1"
    and "m_origNode H2 = m_origNode H1" and "m_copy H2 = m_copy H1"
  shows "grows {k} H H2" and "k' = length (edges H)" and "k' < length (edges H2)"
    and "edges H2 ! k' = (nodeIdCount H, snd (edges H ! k))"
    and "edges H2 ! k = (fst (edges H ! k), nodeIdCount H)"
    and "m_rank H2 (nodeIdCount H) = i" and "wellformed H2"
    and "nodeIdCount H2 = Suc (nodeIdCount H)"
proof -
  note sp = Graph_split_ENG [OF assms(3)]
  show k': "k' = length (edges H)" by (rule sp(1))
  have es: "edges H2 = (edges H)[k := (fst (edges H ! k), nodeIdCount H)]
                      @ [(nodeIdCount H, snd (edges H ! k))]"
    using assms(4) sp(2) by simp
  show n: "nodeIdCount H2 = Suc (nodeIdCount H)" using assms(5) sp(3) by simp
  show "k' < length (edges H2)" using es k' by simp
  show last: "edges H2 ! k' = (nodeIdCount H, snd (edges H ! k))"
    unfolding es k' by (simp add: nth_append)
  show "edges H2 ! k = (fst (edges H ! k), nodeIdCount H)"
    unfolding es using assms(2) by (simp add: nth_append)
  have "fst (edges H1 ! k') = nodeIdCount H"
    using last assms(4) by simp
  then have r: "m_rank H2 = (m_rank H)(nodeIdCount H := i)"
    using assms(6) sp(4) by simp
  then show "m_rank H2 (nodeIdCount H) = i" by simp
  show wf: "wellformed H2"
    unfolding wellformed_def es n using wellformed_split [OF assms(1,2)] .
  have "\<forall>j < length (edges H). j \<notin> {k} \<longrightarrow> edges H2 ! j = edges H ! j"
    unfolding es by (simp add: nth_append)
  moreover have "\<forall>x < nodeIdCount H. m_rank H2 x = m_rank H x"
    unfolding r by simp
  moreover have "length (edges H) \<le> length (edges H2)" unfolding es by simp
  ultimately show "grows {k} H H2"
    unfolding grows_def using wf n assms(7-10) sp(7-10) by simp
qed

lemma split_cluster_edge_grows:
  "wellformed H \<Longrightarrow> k < length (edges H) \<Longrightarrow>
     grows {k} H (split_cluster_edge vB i k H)
     \<and> m_copyEdge (split_cluster_edge vB i k H) = m_copyEdge H"
proof (induction vB i k H rule: split_cluster_edge.induct)
  case (1 vB i k H)
  show ?case
  proof (cases "i < m_rank H vB")
    case False
    then show ?thesis using "1.prems" by (subst (1 2) split_cluster_edge.simps) (simp add: grows_refl)
  next
    case True
    obtain k' H1 where sp: "Graph_split k H = (k', H1)" by (cases "Graph_split k H")
    let ?H2 = "H1\<lparr>m_rank := (m_rank H1)(fst (edges H1 ! k') := i)\<rparr>"
    note st = split_step [OF "1.prems" sp, of ?H2 i]
    have g: "grows {k} H ?H2" by (rule st(1)) simp_all
    have wf: "wellformed ?H2" by (rule st(7)) simp_all
    have k': "k' < length (edges ?H2)" by (rule st(3)) simp_all
    have k'': "k' = length (edges H)" by (rule st(2)) simp_all
    from "1.IH" [OF True sp [symmetric] wf k']
    have ih: "grows {k'} ?H2 (split_cluster_edge vB (i + 1) k' ?H2)"
      "m_copyEdge (split_cluster_edge vB (i + 1) k' ?H2) = m_copyEdge ?H2" by simp_all
    have eq: "split_cluster_edge vB i k H = split_cluster_edge vB (i + 1) k' ?H2"
      using True sp by (subst split_cluster_edge.simps) simp
    have "grows {k} H (split_cluster_edge vB (i + 1) k' ?H2)"
      using g ih(1) by (rule grows_trans) (simp add: k'')
    moreover have "m_copyEdge ?H2 = m_copyEdge H"
      using Graph_split_ENG(5) [OF sp] by simp
    ultimately show ?thesis unfolding eq using ih(2) by simp
  qed
qed

lemma split_edge_chain:
  "wellformed H \<Longrightarrow> \<forall>t \<in> T. t < nodeIdCount H \<Longrightarrow> m_copyEdge H e = ks @ [eH] \<Longrightarrow>
   distinct (ks @ [eH]) \<Longrightarrow> eH < length (edges H) \<Longrightarrow> edges H ! eH = (a, vH) \<Longrightarrow>
   unit_path (edges H) (m_rank H) ks uH a \<Longrightarrow> m_rank H a = i - 1 \<Longrightarrow> i \<le> m_rank H vH \<Longrightarrow>
   \<forall>k \<in> set (ks @ [eH]). fst (edges H ! k) \<notin> T \<and> snd (edges H ! k) \<notin> T \<Longrightarrow>
     unit_path (edges (split_edge e vH i eH H)) (m_rank (split_edge e vH i eH H))
        (m_copyEdge (split_edge e vH i eH H) e) uH vH
     \<and> distinct (m_copyEdge (split_edge e vH i eH H) e)
     \<and> (\<forall>k \<in> set (m_copyEdge (split_edge e vH i eH H) e).
           k \<in> set (ks @ [eH]) \<or> length (edges H) \<le> k)
     \<and> (\<forall>k \<in> set (m_copyEdge (split_edge e vH i eH H) e).
           fst (edges (split_edge e vH i eH H) ! k) \<notin> T
           \<and> snd (edges (split_edge e vH i eH H) ! k) \<notin> T)
     \<and> grows {eH} H (split_edge e vH i eH H)
     \<and> (\<forall>e'. e' \<noteq> e \<longrightarrow> m_copyEdge (split_edge e vH i eH H) e' = m_copyEdge H e')"
proof (induction e vH i eH H arbitrary: ks a rule: split_edge.induct)
  case (1 e vH i eH H)
  note wf = "1.prems"(1) and T = "1.prems"(2) and ch = "1.prems"(3) and dist = "1.prems"(4)
    and eH = "1.prems"(5) and ed = "1.prems"(6) and up = "1.prems"(7) and ra = "1.prems"(8)
    and le = "1.prems"(9) and av = "1.prems"(10)
  show ?case
  proof (cases "i < m_rank H vH")
    case False
    then have eq: "split_edge e vH i eH H = H" by (subst split_edge.simps) simp
    from False le have "m_rank H vH = m_rank H a + 1" using ra by simp
    with up eH ed have "unit_path (edges H) (m_rank H) (ks @ [eH]) uH vH"
      unfolding unit_path_append by blast
    with ch dist av wf show ?thesis unfolding eq by (simp add: grows_refl)
  next
    case True
    obtain k' H1 where sp: "Graph_split eH H = (k', H1)" by (cases "Graph_split eH H")
    let ?H2 = "H1\<lparr>m_copyEdge := (m_copyEdge H1)(e := m_copyEdge H1 e @ [k']),
                   m_origEdge := (m_origEdge H1)(k' \<mapsto> e),
                   m_rank := (m_rank H1)(fst (edges H1 ! k') := i)\<rparr>"
    let ?w = "nodeIdCount H"
    let ?H' = "split_edge e vH (i + 1) k' ?H2"
    have eq: "split_edge e vH i eH H = ?H'"
      using True sp by (subst split_edge.simps) simp
    note st = split_step [OF wf eH sp, of ?H2 i]
    have g: "grows {eH} H ?H2" by (rule st(1)) simp_all
    have k': "k' = length (edges H)" by (rule st(2)) simp_all
    have k'lt: "k' < length (edges ?H2)" by (rule st(3)) simp_all
    have ek': "edges ?H2 ! k' = (?w, vH)" using st(4) ed by simp
    have eeH: "edges ?H2 ! eH = (a, ?w)" using st(5) ed by simp
    have rw: "m_rank ?H2 ?w = i" by (rule st(6)) simp_all
    have wf2: "wellformed ?H2" by (rule st(7)) simp_all
    have n2: "nodeIdCount ?H2 = Suc ?w" by (rule st(8)) simp_all
    from eH have "edges H ! eH \<in> set (edges H)" by simp
    with wf ed have lt: "a < ?w" "vH < ?w" by (auto simp: wellformed_def)
    from g lt have r2: "m_rank ?H2 a = m_rank H a" "m_rank ?H2 vH = m_rank H vH"
      by (simp_all add: grows_def)
    have ksb: "\<And>k. k \<in> set ks \<Longrightarrow> k < length (edges H)"
      using up by (rule unit_path_bound)
    have T2: "\<forall>t \<in> T. t < nodeIdCount ?H2" using T n2 by auto
    have ch2: "m_copyEdge ?H2 e = (ks @ [eH]) @ [k']"
      using ch Graph_split_ENG(5) [OF sp] by simp
    have dist2: "distinct ((ks @ [eH]) @ [k'])"
      using dist ksb eH k' by auto
    have "set ks \<inter> {eH} = {}" using dist by auto
    from unit_path_grows [OF wf g this up]
    have "unit_path (edges ?H2) (m_rank ?H2) ks uH a" .
    moreover have "eH < length (edges ?H2)" using eH g by (simp add: grows_def)
    moreover have "m_rank ?H2 ?w = m_rank ?H2 a + 1" using rw r2 ra by simp
    ultimately have up2: "unit_path (edges ?H2) (m_rank ?H2) (ks @ [eH]) uH ?w"
      unfolding unit_path_append using eeH by blast
    have ra2: "m_rank ?H2 ?w = i + 1 - 1" using rw by simp
    have le2: "i + 1 \<le> m_rank ?H2 vH" using True r2 by simp
    have wT: "?w \<notin> T" using T by auto
    have av2: "\<forall>k \<in> set ((ks @ [eH]) @ [k']).
                 fst (edges ?H2 ! k) \<notin> T \<and> snd (edges ?H2 ! k) \<notin> T"
    proof
      fix k assume "k \<in> set ((ks @ [eH]) @ [k'])"
      then consider "k \<in> set ks" | "k = eH" | "k = k'" by auto
      then show "fst (edges ?H2 ! k) \<notin> T \<and> snd (edges ?H2 ! k) \<notin> T"
      proof cases
        case 1
        with dist have "k \<noteq> eH" by auto
        with g ksb [OF 1] have "edges ?H2 ! k = edges H ! k" by (simp add: grows_def)
        with av 1 show ?thesis by simp
      next
        case 2
        from av ed have "a \<notin> T" by simp
        with 2 eeH wT show ?thesis by simp
      next
        case 3
        from av ed have "vH \<notin> T" by simp
        with 3 ek' wT show ?thesis by simp
      qed
    qed
    note ih = "1.IH" [OF True sp [symmetric] wf2 T2 ch2 dist2 k'lt ek' up2 ra2 le2 av2]
    have len: "length (edges H) \<le> length (edges ?H2)" using g by (simp add: grows_def)
    have c3: "\<forall>k \<in> set (m_copyEdge ?H' e). k \<in> set (ks @ [eH]) \<or> length (edges H) \<le> k"
    proof
      fix k assume "k \<in> set (m_copyEdge ?H' e)"
      with ih have "k \<in> set ((ks @ [eH]) @ [k']) \<or> length (edges ?H2) \<le> k" by blast
      with len k' show "k \<in> set (ks @ [eH]) \<or> length (edges H) \<le> k" by auto
    qed
    have c5: "grows {eH} H ?H'"
      using g conjunct1 [OF conjunct2 [OF conjunct2 [OF conjunct2 [OF conjunct2 [OF ih]]]]]
      by (rule grows_trans) (simp add: k')
    have c6: "\<forall>e'. e' \<noteq> e \<longrightarrow> m_copyEdge ?H' e' = m_copyEdge H e'"
    proof (intro allI impI)
      fix e' assume "e' \<noteq> e"
      with ih have "m_copyEdge ?H' e' = m_copyEdge ?H2 e'" by blast
      also have "\<dots> = m_copyEdge H e'"
        using \<open>e' \<noteq> e\<close> Graph_split_ENG(5) [OF sp] by simp
      finally show "m_copyEdge ?H' e' = m_copyEdge H e'" .
    qed
    from ih c3 c5 c6 show ?thesis unfolding eq by blast
  qed
qed

lemma chains_inv_marks_only:
  "marks_only H H1 \<Longrightarrow> chains_inv n j F UV T H \<Longrightarrow> chains_inv n j F UV T H1"
  by (simp add: chains_inv_def marks_only_def wellformed_def)

lemma marks_only_grows: "marks_only H H1 \<Longrightarrow> grows K H1 H' \<Longrightarrow> grows K H H'"
  by (simp add: marks_only_def grows_def)

lemma chains_inv_step:
  assumes inv: "chains_inv n j F UV T H" and j: "j < n"
    and g: "grows {F j} H H'"
    and others: "\<forall>e'. e' \<noteq> j \<longrightarrow> m_copyEdge H' e' = m_copyEdge H e'"
    and up: "unit_path (edges H') (m_rank H') (m_copyEdge H' j) (fst (UV j)) (snd (UV j))"
    and new: "\<forall>k \<in> set (m_copyEdge H' j). k = F j \<or> length (edges H) \<le> k"
    and av: "\<forall>k \<in> set (m_copyEdge H' j).
               fst (edges H' ! k) \<notin> T \<and> snd (edges H' ! k) \<notin> T"
  shows "chains_inv n (Suc j) F UV T H'"
proof -
  have wf: "wellformed H" and T: "\<forall>t \<in> T. t < nodeIdCount H"
    using inv by (simp_all add: chains_inv_def)
  have fin: "\<And>e. e < n \<Longrightarrow> e < j \<Longrightarrow>
            unit_path (edges H) (m_rank H) (m_copyEdge H e) (fst (UV e)) (snd (UV e))"
    using inv by (simp add: chains_inv_def)
  have todo: "\<And>e. e < n \<Longrightarrow> j \<le> e \<Longrightarrow>
            m_copyEdge H e = [F e] \<and> F e < length (edges H) \<and> edges H ! F e = UV e
            \<and> m_rank H (fst (UV e)) < m_rank H (snd (UV e))
            \<and> m_origNode H (fst (UV e)) \<noteq> None \<and> m_origNode H (snd (UV e)) \<noteq> None"
    using inv by (simp add: chains_inv_def)
  have disj: "\<And>e e'. e < n \<Longrightarrow> e' < n \<Longrightarrow> e \<noteq> e' \<Longrightarrow>
            set (m_copyEdge H e) \<inter> set (m_copyEdge H e') = {}"
    using inv by (simp add: chains_inv_def)
  have rng: "\<And>e k. e < n \<Longrightarrow> k \<in> set (m_copyEdge H e) \<Longrightarrow>
            k < length (edges H) \<and> fst (edges H ! k) \<notin> T \<and> snd (edges H ! k) \<notin> T"
    using inv by (simp add: chains_inv_def)
  from g have wf': "wellformed H'" and len: "length (edges H) \<le> length (edges H')"
    and cnt: "nodeIdCount H \<le> nodeIdCount H'"
    and same: "\<And>k. k < length (edges H) \<Longrightarrow> k \<noteq> F j \<Longrightarrow> edges H' ! k = edges H ! k"
    and rk: "\<And>x. x < nodeIdCount H \<Longrightarrow> m_rank H' x = m_rank H x"
    and on: "m_origNode H' = m_origNode H"
    unfolding grows_def by simp_all
  have chj: "m_copyEdge H j = [F j]" using todo [OF j] by simp
  have notin: "\<And>e. e < n \<Longrightarrow> e \<noteq> j \<Longrightarrow> F j \<notin> set (m_copyEdge H e)"
    using disj [OF _ j] chj by fastforce
  have T': "\<forall>t \<in> T. t < nodeIdCount H'" using T cnt by auto
  have c3: "\<forall>e < n. e < Suc j \<longrightarrow>
            unit_path (edges H') (m_rank H') (m_copyEdge H' e) (fst (UV e)) (snd (UV e))"
  proof (intro allI impI)
    fix e assume e: "e < n" "e < Suc j"
    show "unit_path (edges H') (m_rank H') (m_copyEdge H' e) (fst (UV e)) (snd (UV e))"
    proof (cases "e = j")
      case True
      with up show ?thesis by simp
    next
      case False
      with e have "e < j" by simp
      from notin [OF e(1) False] have "set (m_copyEdge H e) \<inter> {F j} = {}" by simp
      from unit_path_grows [OF wf g this fin [OF e(1) \<open>e < j\<close>]] others False
      show ?thesis by simp
    qed
  qed
  have c4: "\<forall>e < n. Suc j \<le> e \<longrightarrow>
            m_copyEdge H' e = [F e] \<and> F e < length (edges H') \<and> edges H' ! F e = UV e
            \<and> m_rank H' (fst (UV e)) < m_rank H' (snd (UV e))
            \<and> m_origNode H' (fst (UV e)) \<noteq> None \<and> m_origNode H' (snd (UV e)) \<noteq> None"
  proof (intro allI impI)
    fix e assume e: "e < n" "Suc j \<le> e"
    then have ne: "e \<noteq> j" and je: "j \<le> e" by simp_all
    note t = todo [OF e(1) je]
    from notin [OF e(1) ne] t have Fne: "F e \<noteq> F j" by simp
    from t have "F e < length (edges H)" by simp
    then have "edges H ! F e \<in> set (edges H)" by (rule nth_mem)
    with t have "(fst (UV e), snd (UV e)) \<in> set (edges H)" by simp
    with wf have "fst (UV e) < nodeIdCount H" "snd (UV e) < nodeIdCount H"
      by (auto simp: wellformed_def)
    with rk have "m_rank H' (fst (UV e)) = m_rank H (fst (UV e))"
      "m_rank H' (snd (UV e)) = m_rank H (snd (UV e))" by simp_all
    with t others ne same [of "F e"] Fne len on
    show "m_copyEdge H' e = [F e] \<and> F e < length (edges H') \<and> edges H' ! F e = UV e
            \<and> m_rank H' (fst (UV e)) < m_rank H' (snd (UV e))
            \<and> m_origNode H' (fst (UV e)) \<noteq> None \<and> m_origNode H' (snd (UV e)) \<noteq> None"
      by simp
  qed
  have old: "\<And>e k. e < n \<Longrightarrow> e \<noteq> j \<Longrightarrow> k \<in> set (m_copyEdge H' e) \<Longrightarrow>
      k \<in> set (m_copyEdge H e) \<and> k < length (edges H) \<and> k \<noteq> F j"
    using others rng notin by auto
  have c5: "\<forall>e < n. \<forall>e' < n. e \<noteq> e' \<longrightarrow>
              set (m_copyEdge H' e) \<inter> set (m_copyEdge H' e') = {}"
  proof (intro allI impI)
    fix e e' assume e: "e < n" "e' < n" "e \<noteq> e'"
    show "set (m_copyEdge H' e) \<inter> set (m_copyEdge H' e') = {}"
    proof (rule ccontr)
      assume "set (m_copyEdge H' e) \<inter> set (m_copyEdge H' e') \<noteq> {}"
      then obtain k where k: "k \<in> set (m_copyEdge H' e)" "k \<in> set (m_copyEdge H' e')" by auto
      show False
      proof (cases "e = j")
        case True
        with e have "e' \<noteq> j" by simp
        from old [OF e(2) this k(2)] new k(1) True show False by auto
      next
        case False
        note o = old [OF e(1) False k(1)]
        show False
        proof (cases "e' = j")
          case True
          with o new k(2) show False by auto
        next
          case e'j: False
          from old [OF e(2) e'j k(2)] o disj [OF e] show False by auto
        qed
      qed
    qed
  qed
  have c6: "\<forall>e < n. \<forall>k \<in> set (m_copyEdge H' e).
            k < length (edges H') \<and> fst (edges H' ! k) \<notin> T \<and> snd (edges H' ! k) \<notin> T"
  proof (intro allI impI ballI)
    fix e k assume e: "e < n" and k: "k \<in> set (m_copyEdge H' e)"
    show "k < length (edges H') \<and> fst (edges H' ! k) \<notin> T \<and> snd (edges H' ! k) \<notin> T"
    proof (cases "e = j")
      case True
      with up k unit_path_bound have "k < length (edges H')" by blast
      with av k True show ?thesis by simp
    next
      case False
      note o = old [OF e False k]
      with same [of k] rng [OF e, of k] len show ?thesis by simp
    qed
  qed
  from wf' T' c3 c4 c5 c6 show ?thesis unfolding chains_inv_def by (intro conjI)
qed

lemma dummies_for_edge_step:
  assumes tree: "cluster_tree CG depth" and inv: "chains_inv n j F UV T H" and j: "j < n"
  shows "\<exists>H'. dummies_for_edge CG j H = Some H' \<and> chains_inv n (Suc j) F UV T H'
            \<and> grows {F j} H H'"
proof -
  obtain U V where UV: "UV j = (U, V)" by (cases "UV j")
  have wf: "wellformed H" and T: "\<forall>t \<in> T. t < nodeIdCount H"
    using inv by (simp_all add: chains_inv_def)
  have "m_copyEdge H j = [F j] \<and> F j < length (edges H) \<and> edges H ! F j = UV j
            \<and> m_rank H (fst (UV j)) < m_rank H (snd (UV j))
            \<and> m_origNode H (fst (UV j)) \<noteq> None \<and> m_origNode H (snd (UV j)) \<noteq> None"
    using inv j by (simp add: chains_inv_def)
  with UV have ch: "m_copyEdge H j = [F j]" and Fj: "F j < length (edges H)"
    and ed: "edges H ! F j = (U, V)" and rk: "m_rank H U < m_rank H V"
    and orig: "m_origNode H U \<noteq> None" "m_origNode H V \<noteq> None" by simp_all
  have "\<forall>e < n. \<forall>k \<in> set (m_copyEdge H e).
            k < length (edges H) \<and> fst (edges H ! k) \<notin> T \<and> snd (edges H ! k) \<notin> T"
    using inv unfolding chains_inv_def by (elim conjE)
  with j have "\<forall>k \<in> set (m_copyEdge H j).
            k < length (edges H) \<and> fst (edges H ! k) \<notin> T \<and> snd (edges H ! k) \<notin> T"
    by blast
  with ch ed have av: "U \<notin> T" "V \<notin> T" by simp_all
  show ?thesis
  proof (cases "m_rank H V - m_rank H U < 2")
    case True
    with rk have one: "m_rank H V = m_rank H U + 1" by simp
    have res: "dummies_for_edge CG j H = Some H"
      unfolding dummies_for_edge_def using ch ed one by simp
    have "chains_inv n (Suc j) F UV T H"
    proof (rule chains_inv_step [OF inv j])
      show "grows {F j} H H" using wf by (rule grows_refl)
      show "unit_path (edges H) (m_rank H) (m_copyEdge H j) (fst (UV j)) (snd (UV j))"
        using ch ed Fj one UV by simp
      show "\<forall>k \<in> set (m_copyEdge H j). k = F j \<or> length (edges H) \<le> k"
        using ch by simp
      show "\<forall>k \<in> set (m_copyEdge H j). fst (edges H ! k) \<notin> T \<and> snd (edges H ! k) \<notin> T"
        using ch ed av by simp
    qed simp
    with res wf show ?thesis by (simp add: grows_refl)
  next
    case False
    from orig obtain u v where uv: "m_origNode H U = Some u" "m_origNode H V = Some v" by auto
    from lca_returns [OF tree, of u v H] obtain c H1 where l: "lca CG u v H = Some (c, H1)"
      by blast
    then have mo: "marks_only H H1" by (rule lca_marks_only)
    let ?H' = "split_edge j V (m_rank H1 U + 1) (F j) H1"
    have res: "dummies_for_edge CG j H = Some ?H'"
      unfolding dummies_for_edge_def using ch ed False rk uv l by simp
    from mo inv have inv1: "chains_inv n j F UV T H1" by (rule chains_inv_marks_only)
    from mo have same: "edges H1 = edges H" "m_rank H1 = m_rank H" "m_copyEdge H1 = m_copyEdge H"
      "nodeIdCount H1 = nodeIdCount H" by (simp_all add: marks_only_def)
    have wf1: "wellformed H1" using wf same by (simp add: wellformed_def)
    have sc: "unit_path (edges ?H') (m_rank ?H') (m_copyEdge ?H' j) U V
     \<and> distinct (m_copyEdge ?H' j)
     \<and> (\<forall>k \<in> set (m_copyEdge ?H' j). k \<in> set ([] @ [F j]) \<or> length (edges H1) \<le> k)
     \<and> (\<forall>k \<in> set (m_copyEdge ?H' j).
           fst (edges ?H' ! k) \<notin> T \<and> snd (edges ?H' ! k) \<notin> T)
     \<and> grows {F j} H1 ?H'
     \<and> (\<forall>e'. e' \<noteq> j \<longrightarrow> m_copyEdge ?H' e' = m_copyEdge H1 e')"
    proof (rule split_edge_chain [where a = U])
      show "wellformed H1" by (rule wf1)
      show "\<forall>t \<in> T. t < nodeIdCount H1" using T same by simp
      show "m_copyEdge H1 j = [] @ [F j]" using ch same by simp
      show "distinct ([] @ [F j])" by simp
      show "F j < length (edges H1)" using Fj same by simp
      show "edges H1 ! F j = (U, V)" using ed same by simp
      show "unit_path (edges H1) (m_rank H1) [] U U" by simp
      show "m_rank H1 U = m_rank H1 U + 1 - 1" by simp
      show "m_rank H1 U + 1 \<le> m_rank H1 V" using rk same by simp
      show "\<forall>k \<in> set ([] @ [F j]). fst (edges H1 ! k) \<notin> T \<and> snd (edges H1 ! k) \<notin> T"
        using ed same av by simp
    qed
    have "chains_inv n (Suc j) F UV T ?H'"
    proof (rule chains_inv_step [OF inv1 j])
      show "grows {F j} H1 ?H'" using sc by blast
      show "\<forall>e'. e' \<noteq> j \<longrightarrow> m_copyEdge ?H' e' = m_copyEdge H1 e'" using sc by blast
      show "unit_path (edges ?H') (m_rank ?H') (m_copyEdge ?H' j) (fst (UV j)) (snd (UV j))"
        using sc UV by simp
      show "\<forall>k \<in> set (m_copyEdge ?H' j). k = F j \<or> length (edges H1) \<le> k"
        using sc by simp
      show "\<forall>k \<in> set (m_copyEdge ?H' j).
              fst (edges ?H' ! k) \<notin> T \<and> snd (edges ?H' ! k) \<notin> T"
        using sc by blast
    qed
    moreover have "grows {F j} H ?H'"
      using mo conjunct1 [OF conjunct2 [OF conjunct2 [OF conjunct2 [OF conjunct2 [OF sc]]]]]
      by (rule marks_only_grows)
    ultimately show ?thesis using res by simp
  qed
qed

lemma grows_UNIV: "grows K H H' \<Longrightarrow> grows UNIV H H'"
  by (simp add: grows_def)

lemma grows_UNIV_trans: "grows UNIV H H1 \<Longrightarrow> grows UNIV H1 H2 \<Longrightarrow> grows UNIV H H2"
  by (rule grows_trans) simp_all

lemma first_loop:
  assumes tree: "cluster_tree CG depth" and inv: "chains_inv n 0 F UV T H"
  shows "m \<le> n \<Longrightarrow>
     \<exists>H'. fold (\<lambda>e r. Option.bind r (dummies_for_edge CG e)) [0..<m] (Some H) = Some H'
        \<and> chains_inv n m F UV T H' \<and> grows UNIV H H'"
proof (induction m)
  case 0
  from inv have "wellformed H" by (simp add: chains_inv_def)
  with inv show ?case by (simp add: grows_refl)
next
  case (Suc m)
  then obtain H1 where
    f: "fold (\<lambda>e r. Option.bind r (dummies_for_edge CG e)) [0..<m] (Some H) = Some H1"
    and inv1: "chains_inv n m F UV T H1" and g1: "grows UNIV H H1" by auto
  from Suc.prems have "m < n" by simp
  from dummies_for_edge_step [OF tree inv1 this] obtain H2 where
    d: "dummies_for_edge CG m H1 = Some H2" and inv2: "chains_inv n (Suc m) F UV T H2"
    and g2: "grows {F m} H1 H2" by blast
  from g1 grows_UNIV [OF g2] have "grows UNIV H H2" by (rule grows_UNIV_trans)
  with f d inv2 show ?case by simp
qed

lemma chains_inv_grows:
  assumes inv: "chains_inv n n F UV T H" and g: "grows {k} H H'"
    and same: "m_copyEdge H' = m_copyEdge H"
    and k: "fst (edges H ! k) \<in> T \<or> snd (edges H ! k) \<in> T"
  shows "chains_inv n n F UV T H'"
proof -
  have wf: "wellformed H" and T: "\<forall>t \<in> T. t < nodeIdCount H"
    using inv by (simp_all add: chains_inv_def)
  have fin: "\<And>e. e < n \<Longrightarrow>
            unit_path (edges H) (m_rank H) (m_copyEdge H e) (fst (UV e)) (snd (UV e))"
    using inv by (simp add: chains_inv_def)
  have disj: "\<forall>e < n. \<forall>e' < n. e \<noteq> e' \<longrightarrow>
            set (m_copyEdge H e) \<inter> set (m_copyEdge H e') = {}"
    using inv unfolding chains_inv_def by (elim conjE)
  have rng: "\<And>e k. e < n \<Longrightarrow> k \<in> set (m_copyEdge H e) \<Longrightarrow>
            k < length (edges H) \<and> fst (edges H ! k) \<notin> T \<and> snd (edges H ! k) \<notin> T"
    using inv by (simp add: chains_inv_def)
  from g have wf': "wellformed H'" and len: "length (edges H) \<le> length (edges H')"
    and cnt: "nodeIdCount H \<le> nodeIdCount H'"
    and unch: "\<And>j. j < length (edges H) \<Longrightarrow> j \<noteq> k \<Longrightarrow> edges H' ! j = edges H ! j"
    unfolding grows_def by simp_all
  have notin: "\<And>e. e < n \<Longrightarrow> k \<notin> set (m_copyEdge H e)"
    using rng k by blast
  have T': "\<forall>t \<in> T. t < nodeIdCount H'" using T cnt by auto
  have c3: "\<forall>e < n. e < n \<longrightarrow>
            unit_path (edges H') (m_rank H') (m_copyEdge H' e) (fst (UV e)) (snd (UV e))"
  proof (intro allI impI)
    fix e assume e: "e < n"
    from notin [OF e] have "set (m_copyEdge H e) \<inter> {k} = {}" by simp
    from unit_path_grows [OF wf g this fin [OF e]] same
    show "unit_path (edges H') (m_rank H') (m_copyEdge H' e) (fst (UV e)) (snd (UV e))"
      by simp
  qed
  have c4: "\<forall>e < n. n \<le> e \<longrightarrow>
            m_copyEdge H' e = [F e] \<and> F e < length (edges H') \<and> edges H' ! F e = UV e
            \<and> m_rank H' (fst (UV e)) < m_rank H' (snd (UV e))
            \<and> m_origNode H' (fst (UV e)) \<noteq> None \<and> m_origNode H' (snd (UV e)) \<noteq> None"
    by simp
  have c5: "\<forall>e < n. \<forall>e' < n. e \<noteq> e' \<longrightarrow>
            set (m_copyEdge H' e) \<inter> set (m_copyEdge H' e') = {}"
    using disj unfolding same .
  have c6: "\<forall>e < n. \<forall>j \<in> set (m_copyEdge H' e).
            j < length (edges H') \<and> fst (edges H' ! j) \<notin> T \<and> snd (edges H' ! j) \<notin> T"
  proof (intro allI impI ballI)
    fix e j assume e: "e < n" and j: "j \<in> set (m_copyEdge H' e)"
    then have j': "j \<in> set (m_copyEdge H e)" using same by simp
    with notin [OF e] have "j \<noteq> k" by auto
    with rng [OF e j'] unch [of j] len
    show "j < length (edges H') \<and> fst (edges H' ! j) \<notin> T \<and> snd (edges H' ! j) \<notin> T"
      by simp
  qed
  from wf' T' c3 c4 c5 c6 show ?thesis unfolding chains_inv_def by (intro conjI)
qed

lemma spans_inv_grows:
  assumes "spans_inv CG T H" and "\<forall>t \<in> T. t < nodeIdCount H" and "grows K H H'"
  shows "spans_inv CG T H'"
  using assms unfolding spans_inv_def grows_def by auto

lemma dummies_for_cluster_scan_inv:
  assumes inv: "chains_inv n n F UV T H" and top: "vTop \<in> T"
    and rk: "m_rank H vTop < m_rank H vBottom"
  shows "\<forall>k \<in> set adj. k < length (edges H)
            \<and> (fst (edges H ! k) = vTop \<or> snd (edges H ! k) = vTop) \<Longrightarrow>
     \<exists>H'. dummies_for_cluster_scan vTop vBottom adj H = Some H'
        \<and> chains_inv n n F UV T H' \<and> grows UNIV H H'"
proof (induction adj)
  case Nil
  from inv have "wellformed H" by (simp add: chains_inv_def)
  with inv show ?case by (simp add: grows_refl)
next
  case (Cons k adj)
  from Cons.prems have k: "k < length (edges H)"
    "fst (edges H ! k) = vTop \<or> snd (edges H ! k) = vTop" by simp_all
  from Cons have ih: "\<exists>H'. dummies_for_cluster_scan vTop vBottom adj H = Some H'
        \<and> chains_inv n n F UV T H' \<and> grows UNIV H H'" by simp
  show ?case
  proof (cases "snd (edges H ! k) = vBottom \<and> \<not> m_rank H vBottom - m_rank H vTop < 2")
    case False
    with rk ih show ?thesis by auto
  next
    case True
    let ?H' = "split_cluster_edge vBottom (m_rank H vTop + 1) k H"
    from inv have wf: "wellformed H" by (simp add: chains_inv_def)
    from split_cluster_edge_grows [OF wf k(1), of vBottom "m_rank H vTop + 1"]
    have g: "grows {k} H ?H'" and same: "m_copyEdge ?H' = m_copyEdge H" by simp_all
    from k(2) top have "fst (edges H ! k) \<in> T \<or> snd (edges H ! k) \<in> T" by auto
    from chains_inv_grows [OF inv g same this] grows_UNIV [OF g] True rk
    show ?thesis by simp
  qed
qed

lemma adjEdgeIds_set:
  "\<forall>k \<in> set (adjEdgeIds es w). k < length es \<and> (fst (es ! k) = w \<or> snd (es ! k) = w)"
  by (simp add: adjEdgeIds_def)

lemma second_loop:
  assumes "set cs \<subseteq> set (clusters CG)"
  shows "chains_inv n n F UV T H \<Longrightarrow> spans_inv CG T H \<Longrightarrow>
     \<exists>H'. fold (\<lambda>c r. Option.bind r (dummies_for_cluster CG c)) cs (Some H) = Some H'
        \<and> chains_inv n n F UV T H' \<and> grows UNIV H H'"
  using assms
proof (induction cs arbitrary: H)
  case Nil
  then have "wellformed H" by (simp add: chains_inv_def)
  with Nil show ?case by (simp add: grows_refl)
next
  case (Cons c cs)
  have T: "\<forall>t \<in> T. t < nodeIdCount H" using Cons.prems(1) by (simp add: chains_inv_def)
  have "\<exists>H1. dummies_for_cluster CG c H = Some H1
        \<and> chains_inv n n F UV T H1 \<and> grows UNIV H H1"
  proof (cases "c = rootCluster CG")
    case True
    from Cons.prems(1) have "wellformed H" by (simp add: chains_inv_def)
    with True Cons.prems(1) show ?thesis by (simp add: dummies_for_cluster_def grows_refl)
  next
    case False
    with Cons.prems(2,3) have "m_topNode H c \<in> T"
      "m_rank H (m_topNode H c) < m_rank H (m_bottomNode H c)"
      by (simp_all add: spans_inv_def)
    from dummies_for_cluster_scan_inv [OF Cons.prems(1) this adjEdgeIds_set] False
    show ?thesis by (simp add: dummies_for_cluster_def)
  qed
  then obtain H1 where d: "dummies_for_cluster CG c H = Some H1"
    and inv1: "chains_inv n n F UV T H1" and g1: "grows UNIV H H1" by blast
  from Cons.prems(2) T g1 have "spans_inv CG T H1" by (rule spans_inv_grows)
  from Cons.IH [OF inv1 this] Cons.prems(3) obtain H2 where
    f: "fold (\<lambda>c r. Option.bind r (dummies_for_cluster CG c)) cs (Some H1) = Some H2"
    and inv2: "chains_inv n n F UV T H2" and g2: "grows UNIV H1 H2" by auto
  from g1 g2 have "grows UNIV H H2" by (rule grows_UNIV_trans)
  with d f inv2 show ?case by simp
qed

lemma ranked_chains_inv:
  assumes r: "ranked CG H"
  defines "T \<equiv> {m_topNode H c | c. c \<in> set (clusters CG) \<and> c \<noteq> rootCluster CG}"
  shows "chains_inv (length (edges CG)) 0 (\<lambda>e. hd (m_copyEdge H e))
           (\<lambda>e. edges H ! hd (m_copyEdge H e)) T H"
    and "spans_inv CG T H"
proof -
  let ?n = "length (edges CG)"
  have wf: "wellformed H" using r by (simp add: ranked_def)
  have dist: "distinct (map (\<lambda>e. hd (m_copyEdge H e)) [0..<?n])"
    using r unfolding ranked_def by (elim conjE)
  have fr: "\<And>e. e < ?n \<Longrightarrow>
            \<exists>k. m_copyEdge H e = [k] \<and> k < length (edges H)
               \<and> m_rank H (fst (edges H ! k)) < m_rank H (snd (edges H ! k))
               \<and> m_origNode H (fst (edges H ! k)) \<noteq> None
               \<and> m_origNode H (snd (edges H ! k)) \<noteq> None"
    using r unfolding ranked_def by blast
  have cl: "\<And>c. c \<in> set (clusters CG) \<Longrightarrow> c \<noteq> rootCluster CG \<Longrightarrow>
            m_topNode H c < nodeIdCount H \<and> m_bottomNode H c < nodeIdCount H
            \<and> m_origNode H (m_topNode H c) = None
            \<and> m_rank H (m_topNode H c) < m_rank H (m_bottomNode H c)"
    using r unfolding ranked_def by blast
  have T: "\<forall>t \<in> T. t < nodeIdCount H \<and> m_origNode H t = None"
    using cl unfolding T_def by auto
  show "spans_inv CG T H"
    unfolding spans_inv_def T_def using cl by blast
  have c4: "\<forall>e < ?n. 0 \<le> e \<longrightarrow>
            m_copyEdge H e = [hd (m_copyEdge H e)] \<and> hd (m_copyEdge H e) < length (edges H)
            \<and> edges H ! hd (m_copyEdge H e) = edges H ! hd (m_copyEdge H e)
            \<and> m_rank H (fst (edges H ! hd (m_copyEdge H e)))
                < m_rank H (snd (edges H ! hd (m_copyEdge H e)))
            \<and> m_origNode H (fst (edges H ! hd (m_copyEdge H e))) \<noteq> None
            \<and> m_origNode H (snd (edges H ! hd (m_copyEdge H e))) \<noteq> None"
  proof (intro allI impI)
    fix e assume "e < ?n"
    from fr [OF this] obtain k where "m_copyEdge H e = [k]" "k < length (edges H)"
      "m_rank H (fst (edges H ! k)) < m_rank H (snd (edges H ! k))"
      "m_origNode H (fst (edges H ! k)) \<noteq> None" "m_origNode H (snd (edges H ! k)) \<noteq> None"
      by blast
    then show "m_copyEdge H e = [hd (m_copyEdge H e)] \<and> hd (m_copyEdge H e) < length (edges H)
            \<and> edges H ! hd (m_copyEdge H e) = edges H ! hd (m_copyEdge H e)
            \<and> m_rank H (fst (edges H ! hd (m_copyEdge H e)))
                < m_rank H (snd (edges H ! hd (m_copyEdge H e)))
            \<and> m_origNode H (fst (edges H ! hd (m_copyEdge H e))) \<noteq> None
            \<and> m_origNode H (snd (edges H ! hd (m_copyEdge H e))) \<noteq> None"
      by simp
  qed
  have inj: "inj_on (\<lambda>e. hd (m_copyEdge H e)) (set [0..<?n])"
    using dist by (simp add: distinct_map)
  have c5: "\<forall>e < ?n. \<forall>e' < ?n. e \<noteq> e' \<longrightarrow>
              set (m_copyEdge H e) \<inter> set (m_copyEdge H e') = {}"
  proof (intro allI impI)
    fix e e' assume e: "e < ?n" "e' < ?n" "e \<noteq> e'"
    with inj have "hd (m_copyEdge H e) \<noteq> hd (m_copyEdge H e')"
      by (auto simp: inj_on_def)
    moreover from c4 e have "m_copyEdge H e = [hd (m_copyEdge H e)]"
      "m_copyEdge H e' = [hd (m_copyEdge H e')]" by simp_all
    ultimately show "set (m_copyEdge H e) \<inter> set (m_copyEdge H e') = {}"
      by (metis Int_insert_left_if0 empty_set inf_bot_left list.simps(15) singletonD)
  qed
  have c6: "\<forall>e < ?n. \<forall>k \<in> set (m_copyEdge H e).
            k < length (edges H) \<and> fst (edges H ! k) \<notin> T \<and> snd (edges H ! k) \<notin> T"
  proof (intro allI impI ballI)
    fix e k assume e: "e < ?n" and k: "k \<in> set (m_copyEdge H e)"
    from fr [OF e] k have "k < length (edges H)"
      "m_origNode H (fst (edges H ! k)) \<noteq> None" "m_origNode H (snd (edges H ! k)) \<noteq> None"
      by auto
    with T show "k < length (edges H) \<and> fst (edges H ! k) \<notin> T \<and> snd (edges H ! k) \<notin> T"
      by auto
  qed
  have c3: "\<forall>e < ?n. e < 0 \<longrightarrow>
            unit_path (edges H) (m_rank H) (m_copyEdge H e)
              (fst (edges H ! hd (m_copyEdge H e))) (snd (edges H ! hd (m_copyEdge H e)))"
    by simp
  have T1: "\<forall>t \<in> T. t < nodeIdCount H" using T by simp
  from wf T1 c3 c4 c5 c6
  show "chains_inv ?n 0 (\<lambda>e. hd (m_copyEdge H e)) (\<lambda>e. edges H ! hd (m_copyEdge H e)) T H"
    unfolding chains_inv_def fst_conv snd_conv by (intro conjI)
qed

lemmas construct_simps = construct_def construct_edges_def prepare_def seed_def isAcyclic_def
      adjEdges_def empty_ENG_def
      create_node_copies_def create_cluster_nodes_def node_containment_edges_def
      cluster_containment_edges_def adjacency_edges_def adjacency_edge_def
      cluster_order_edges_def cluster_order_edge_def attempt_def
      lca_def lca_loop.simps climb_def
      newNode_def newEdge_def addEdge_def reachable_def upt_rec

lemma ex_ranked_state:
  "edges ex_ranked =
     [(4, 0), (0, 5), (6, 1), (1, 7), (2, 4), (5, 3), (4, 5), (2, 6), (7, 3), (6, 7), (0, 1),
      (5, 6)]"
  "nodeIdCount ex_ranked = 8"
  "m_copyEdge ex_ranked 0 = [10]"
  "map (m_origNode ex_ranked) [0, Suc 0, 2, 3, 4, 5, 6, 7]
     = [Some 0, Some 1, None, None, None, None, None, None]"
  "map (m_rank ex_ranked) [0, Suc 0, 4, 5, 6, 7] = [1, 4, 0, 2, 3, 5]"
  "map (m_topNode ex_ranked) [Suc 0, 2] = [4, 6]"
  "map (m_bottomNode ex_ranked) [Suc 0, 2] = [5, 7]"
  "map (m_copy ex_ranked) [0, Suc 0] = [0, 1]"
  by (simp_all add: ex_ranked_def ex_clustered_def construct_simps)

lemma ex_ranked_is_ranked: "ranked ex_clustered ex_ranked"
  using ex_ranked_state(4-8)
  by (simp add: ranked_def wellformed_def ex_ranked_state(1-3) ex_clustered_def)

lemma ex_cyclic_state:
  "edges ex_cyclic_ranked = [(2, 0), (0, 3), (2, 1), (1, 3), (0, 1), (0, 1)]"
  "nodeIdCount ex_cyclic_ranked = 4"
  "m_copyEdge ex_cyclic_ranked 0 = [4]"
  "m_copyEdge ex_cyclic_ranked (Suc 0) = [5]"
  "map (m_origNode ex_cyclic_ranked) [0, Suc 0, 2, 3] = [Some 0, Some 1, None, None]"
  "map (m_rank ex_cyclic_ranked) [0, Suc 0] = [0, 1]"
  "map (m_copy ex_cyclic_ranked) [0, Suc 0] = [0, 1]"
  by (simp_all add: ex_cyclic_ranked_def ex_cyclic_def construct_simps adjEdges_def)

lemma ex_cyclic_is_ranked: "ranked ex_cyclic ex_cyclic_ranked"
  using ex_cyclic_state(5-7)
  by (simp add: ranked_def wellformed_def ex_cyclic_state(1-4) ex_cyclic_def less_Suc_eq)

lemma ex_cyclic_tree: "cluster_tree ex_cyclic (\<lambda>c. if c = 0 then 0 else 1)"
  by (simp add: cluster_tree_def ex_cyclic_def)

lemma createDummyNodes_example:
  "map_option (\<lambda>H. (m_copyEdge H 0, map ((!) (edges H)) [10, 12, 13], map (m_rank H) [0, 8, 9, 1]))
     (createDummyNodes ex_clustered ex_ranked)
   = Some ([10, 12, 13], [(0, 8), (8, 9), (9, 1)], [1, 2, 3, 4])"
  by (simp add: createDummyNodes_def dummies_for_edge_def dummies_for_cluster_def adjEdgeIds_def
      split_edge.simps split_cluster_edge.simps Graph_split_def
      ex_ranked_def ex_clustered_def construct_simps)

text \<open>
  Claim C1, amended. On a cluster tree, called in a state as the ranking stage leaves
  it, \<open>createDummyNodes\<close> returns, and afterwards the chain of every original edge
  \<open>e = (u, v)\<close> is a sequence of edges of the extended nesting graph that forms a
  directed path along which the rank grows by exactly one per edge. The path leads
  from the copy of \<open>u\<close> to the copy of \<open>v\<close> unless the constructor has reversed the
  edge; then it leads from the copy of \<open>v\<close> to the copy of \<open>u\<close>.
\<close>

theorem createDummyNodes_chains:
  assumes "cluster_tree CG depth" and "ranked CG H"
  shows "\<exists>H'. createDummyNodes CG H = Some H'
     \<and> (\<forall>e < length (edges CG).
          unit_path (edges H') (m_rank H') (m_copyEdge H' e)
            (m_copy H' (if reversed CG H e then snd (edges CG ! e) else fst (edges CG ! e)))
            (m_copy H' (if reversed CG H e then fst (edges CG ! e) else snd (edges CG ! e))))"
proof -
  let ?n = "length (edges CG)"
  let ?F = "\<lambda>e. hd (m_copyEdge H e)"
  let ?UV = "\<lambda>e. edges H ! hd (m_copyEdge H e)"
  let ?T = "{m_topNode H c | c. c \<in> set (clusters CG) \<and> c \<noteq> rootCluster CG}"
  note init = ranked_chains_inv [OF assms(2)]
  from first_loop [OF assms(1) init(1), of ?n] obtain H1 where
    f1: "fold (\<lambda>e r. Option.bind r (dummies_for_edge CG e)) [0..<?n] (Some H) = Some H1"
    and inv1: "chains_inv ?n ?n ?F ?UV ?T H1" and g1: "grows UNIV H H1" by auto
  have T: "\<forall>t \<in> ?T. t < nodeIdCount H" using init(1) unfolding chains_inv_def by (elim conjE)
  from init(2) T g1 have sp1: "spans_inv CG ?T H1" by (rule spans_inv_grows)
  from second_loop [OF subset_refl inv1 sp1] obtain H2 where
    f2: "fold (\<lambda>c r. Option.bind r (dummies_for_cluster CG c)) (clusters CG) (Some H1) = Some H2"
    and inv2: "chains_inv ?n ?n ?F ?UV ?T H2" and g2: "grows UNIV H1 H2" by auto
  have res: "createDummyNodes CG H = Some H2"
    unfolding createDummyNodes_def f1 f2 ..
  from g1 g2 have "grows UNIV H H2" by (rule grows_UNIV_trans)
  then have cp: "m_copy H2 = m_copy H" by (simp add: grows_def)
  have paths: "\<And>e. e < ?n \<Longrightarrow>
      unit_path (edges H2) (m_rank H2) (m_copyEdge H2 e) (fst (?UV e)) (snd (?UV e))"
    using inv2 by (simp add: chains_inv_def)
  have "\<forall>e < ?n. unit_path (edges H2) (m_rank H2) (m_copyEdge H2 e)
            (m_copy H2 (if reversed CG H e then snd (edges CG ! e) else fst (edges CG ! e)))
            (m_copy H2 (if reversed CG H e then fst (edges CG ! e) else snd (edges CG ! e)))"
  proof (intro allI impI)
    fix e assume e: "e < ?n"
    from assms(2) e obtain k where k: "m_copyEdge H e = [k]"
      "edges H ! k = (m_copy H (fst (edges CG ! e)), m_copy H (snd (edges CG ! e)))
       \<or> edges H ! k = (m_copy H (snd (edges CG ! e)), m_copy H (fst (edges CG ! e)))"
      unfolding ranked_def by blast
    then have "?UV e = (m_copy H (if reversed CG H e then snd (edges CG ! e) else fst (edges CG ! e)),
                       m_copy H (if reversed CG H e then fst (edges CG ! e) else snd (edges CG ! e)))"
      by (auto simp: reversed_def)
    with paths [OF e] cp
    show "unit_path (edges H2) (m_rank H2) (m_copyEdge H2 e)
            (m_copy H2 (if reversed CG H e then snd (edges CG ! e) else fst (edges CG ! e)))
            (m_copy H2 (if reversed CG H e then fst (edges CG ! e) else snd (edges CG ! e)))"
      by simp
  qed
  with res show ?thesis by blast
qed

theorem createDummyNodes_chains_witness:
  "\<exists>H'. createDummyNodes ex_clustered ex_ranked = Some H'
     \<and> unit_path (edges H') (m_rank H') (m_copyEdge H' 0) (m_copy H' 0) (m_copy H' 1)"
proof -
  have "\<not> reversed ex_clustered ex_ranked 0"
    using ex_ranked_state(8) by (simp add: reversed_def ex_ranked_state(1-3) ex_clustered_def)
  with createDummyNodes_chains [OF ex_clustered_tree ex_ranked_is_ranked]
  show ?thesis by (simp add: ex_clustered_def)
qed

text \<open>
  The sentence as stated fails on a reversed edge: in \<open>ex_cyclic\<close> the chain of the
  edge \<open>1 \<rightarrow> 0\<close> is no path from the copy of \<open>1\<close> to the copy of \<open>0\<close>.
\<close>

theorem createDummyNodes_reversed_counterexample:
  "createDummyNodes ex_cyclic ex_cyclic_ranked = Some ex_cyclic_ranked
     \<and> edges ex_cyclic ! 1 = (1, 0)
     \<and> \<not> unit_path (edges ex_cyclic_ranked) (m_rank ex_cyclic_ranked)
           (m_copyEdge ex_cyclic_ranked 1) (m_copy ex_cyclic_ranked 1) (m_copy ex_cyclic_ranked 0)"
proof -
  have "createDummyNodes ex_cyclic ex_cyclic_ranked = Some ex_cyclic_ranked"
    using ex_cyclic_state(6)
    by (simp add: createDummyNodes_def dummies_for_edge_def dummies_for_cluster_def
        ex_cyclic_state(1-4) ex_cyclic_def upt_rec)
  moreover have "\<not> unit_path (edges ex_cyclic_ranked) (m_rank ex_cyclic_ranked)
       (m_copyEdge ex_cyclic_ranked 1) (m_copy ex_cyclic_ranked 1) (m_copy ex_cyclic_ranked 0)"
    using ex_cyclic_state(7) by (simp add: ex_cyclic_state(1-4))
  moreover have "edges ex_cyclic ! 1 = (1, 0)" by (simp add: ex_cyclic_def)
  ultimately show ?thesis by simp
qed

section \<open>The edge adder in the constructor, on a self-loop\<close>

text \<open>
  \<open>isAcyclic\<close> decides whether the graph has a directed cycle.
\<close>

lemma isAcyclic_iff: "isAcyclic es \<longleftrightarrow> acyclic (set es)"
proof -
  have r: "\<And>s t. fst (reachable es (\<lambda>v. False) t s) \<longleftrightarrow> (t, s) \<in> (set es)\<^sup>*"
  proof -
    fix s t
    obtain b out vis' where re: "reachable es (\<lambda>v. False) t s = (b, out, vis')"
      by (cases "reachable es (\<lambda>v. False) t s") auto
    from reachable_correct [OF re] re
    show "fst (reachable es (\<lambda>v. False) t s) \<longleftrightarrow> (t, s) \<in> (set es)\<^sup>*" by simp
  qed
  have "isAcyclic es \<longleftrightarrow> (\<forall>(s, t) \<in> set es. (t, s) \<notin> (set es)\<^sup>*)"
    by (auto simp: isAcyclic_def list_all_iff r)
  also have "\<dots> \<longleftrightarrow> acyclic (set es)"
  proof
    assume a: "\<forall>(s, t) \<in> set es. (t, s) \<notin> (set es)\<^sup>*"
    show "acyclic (set es)"
      unfolding acyclic_def
    proof (intro allI notI)
      fix x assume "(x, x) \<in> (set es)\<^sup>+"
      then obtain y where "(x, y) \<in> set es" "(y, x) \<in> (set es)\<^sup>*"
        by (auto dest: tranclD)
      with a show False by auto
    qed
  next
    assume a: "acyclic (set es)"
    show "\<forall>(s, t) \<in> set es. (t, s) \<notin> (set es)\<^sup>*"
    proof (clarify)
      fix s t assume "(s, t) \<in> set es" "(t, s) \<in> (set es)\<^sup>*"
      then have "(s, s) \<in> (set es)\<^sup>+" by (rule rtrancl_into_trancl2)
      with a show False by (simp add: acyclic_def)
    qed
  qed
  finally show ?thesis .
qed

text \<open>
  Claim C4. The invariant that \<open>m_aeLevel\<close> is a topological labeling after every
  call of \<open>addEdge\<close> that returns an edge is what the constructor relies on: it
  asserts \<open>isAcyclic\<close> when its second loop has ended. On the graph with the single edge
  \<open>0 \<rightarrow> 0\<close> the code breaks it. The seeding gives the top node (node \<open>1\<close>) level
  \<open>0\<close>, the copy of \<open>0\<close> level \<open>1\<close> and the bottom node (node \<open>2\<close>) level \<open>2\<close>,
  a topological labeling of the containment edges; the first loop calls
  \<open>addEdge(copy(0), copy(0), true)\<close>, which returns the new edge \<open>2\<close> from the copy
  of \<open>0\<close> to itself, an edge between equal levels; the graph has a cycle, and the
  assertion after the second loop fails.
\<close>

theorem construct_selfloop_assertion:
  "map_option (\<lambda>H. (edges H, map (m_aeLevel H) [0, 1, 2], m_copy H 0)) (seed ex_selfloop)
     = Some ([(1, 0), (0, 2)], [1, 0, 2], 0)
   \<and> map_option (\<lambda>H. (edges H, map (m_aeLevel H) [0, 1, 2], m_copyEdge H 0)) (prepare ex_selfloop)
     = Some ([(1, 0), (0, 2), (0, 0)], [1, 0, 2], [2])
   \<and> map_option (\<lambda>s. edges (eng s)) (construct_edges ex_selfloop)
     = Some [(1, 0), (0, 2), (0, 0)]
   \<and> \<not> acyclic (set [(1, 0), (0, 2), (0 :: node, 0 :: node)])
   \<and> construct ex_selfloop = None"
proof -
  have "\<not> acyclic (set [(1, 0), (0, 2), (0 :: node, 0 :: node)])"
    by (auto simp: acyclic_def intro: exI [of _ 0])
  then show ?thesis
    by (simp add: ex_selfloop_def construct_simps)
qed

end
